theory Spec2Isabelle
  imports Main "HOL-Library.Word" "HOL-Library.Char_ord" "HOL-Library.List_Lexorder"
begin

section \<open>Common types\<close>

text \<open>
  \<^verbatim>\<open>transactions/type.hpp\<close> is not among the sources; the data model gives both the
  transaction id and the command id as unsigned 64-bit counters, so both are 64-bit words
  here and \<open>+\<close> wraps around as \<^verbatim>\<open>++\<close> does in C++.
\<close>

type_synonym transaction_id_t = "64 word"
type_synonym command_id_t = "64 word"

text \<open>
  How a call ends: it returns a value; it throws a C++ exception; a \<^verbatim>\<open>CHECK\<close> fails and
  the process is aborted (\<open>Fatal\<close>, which also stands for a failed \<^verbatim>\<open>DCHECK\<close> and for the
  dereference of an end iterator that such a check guards); or it waits for ever for
  something no other call of a sequential run provides (\<open>Hangs\<close>).
\<close>

datatype exception_t = TransactionError | IndexExistsException

datatype 'a outcome = Returns 'a | Throws exception_t | Fatal | Hangs

text \<open>
  Modelled from the spec: \<^verbatim>\<open>storage/gid.hpp\<close> is not among the sources. The data model
  gives a global id as a pair of a worker id and a local id packed into 64 bits; the pair
  is kept unpacked here, \<open>WorkerId\<close> and \<open>LocalId\<close> being the two projections.
\<close>

datatype Gid = Gid (WorkerId: int) (LocalId: "64 word")

text \<open>
  Modelled from the spec: \<^verbatim>\<open>database/state_delta.hpp\<close> is not among the sources. The
  WAL entries are the tagged variants the durability pipeline lists, each with the id of
  its transaction; \<open>RemoveVertexDelta\<close>, \<open>RemoveEdgeDelta\<close> and \<open>BuildIndexDelta\<close> are the
  variants \<^verbatim>\<open>RemoveVertex\<close>, \<^verbatim>\<open>RemoveEdge\<close> and \<^verbatim>\<open>BuildIndex\<close>, renamed apart from the
  accessor's methods.
\<close>

datatype StateDelta =
    TxBegin transaction_id_t
  | TxCommit transaction_id_t
  | TxAbort transaction_id_t
  | CreateVertex transaction_id_t Gid
  | CreateEdge transaction_id_t Gid Gid Gid string
  | SetProperty transaction_id_t Gid string string
  | AddLabel transaction_id_t Gid string
  | RemoveLabel transaction_id_t Gid string
  | RemoveVertexDelta transaction_id_t Gid
  | RemoveEdgeDelta transaction_id_t Gid
  | BuildIndexDelta transaction_id_t string string

section \<open>Transaction engine (\<^verbatim>\<open>SingleNodeEngine\<close>)\<close>

subsection \<open>Snapshot\<close>

text \<open>
  Modelled from the spec: class \<^verbatim>\<open>tx::Snapshot\<close> (\<^verbatim>\<open>transactions/snapshot.hpp\<close>) is not
  among the sources. The data model describes it as an ordered set of transaction ids
  whose front is the oldest one: an ascending list without repetitions, \<open>insert\<close> keeping
  the order, \<open>remove\<close> deleting the id, \<open>front\<close> the first element.
\<close>

type_synonym Snapshot = "transaction_id_t list"

definition snapshot_insert :: "transaction_id_t \<Rightarrow> Snapshot \<Rightarrow> Snapshot" where
  "snapshot_insert i s = (if i \<in> set s then s else insort i s)"

definition snapshot_remove :: "transaction_id_t \<Rightarrow> Snapshot \<Rightarrow> Snapshot" where
  "snapshot_remove i s = removeAll i s"

definition snapshot_front :: "Snapshot \<Rightarrow> transaction_id_t" where
  "snapshot_front s = hd s"

definition snapshot_size :: "Snapshot \<Rightarrow> nat" where
  "snapshot_size s = length s"

subsection \<open>Transactions and the commit log\<close>

text \<open>
  Modelled from the spec: class \<^verbatim>\<open>tx::Transaction\<close> (\<^verbatim>\<open>transactions/transaction.hpp\<close>) is
  not among the sources. The engine reads and writes its members \<^verbatim>\<open>id_\<close> (here \<open>tid\<close>), \<^verbatim>\<open>cid_\<close> and
  \<^verbatim>\<open>snapshot()\<close>; the constructor called by \<^verbatim>\<open>Begin\<close> takes the id and the snapshot, and a
  new transaction starts at its first command.
\<close>

record Transaction =
  tid :: transaction_id_t
  cid :: command_id_t
  snapshot :: Snapshot

definition new_Transaction :: "transaction_id_t \<Rightarrow> Snapshot \<Rightarrow> Transaction" where
  "new_Transaction i s = \<lparr>tid = i, cid = 1, snapshot = s\<rparr>"

text \<open>
  Modelled from the spec: \<^verbatim>\<open>CommitLog\<close> (\<^verbatim>\<open>transactions/commit_log.hpp\<close>) is not among
  the sources. It keeps one state per transaction id; \<^verbatim>\<open>set_committed\<close> and
  \<^verbatim>\<open>set_aborted\<close> store the state and \<^verbatim>\<open>fetch_info\<close> reads it.
\<close>

datatype CommitLog_Info = ACTIVE | COMMITTED | ABORTED

type_synonym CommitLog = "transaction_id_t \<Rightarrow> CommitLog_Info"

definition set_committed :: "transaction_id_t \<Rightarrow> CommitLog \<Rightarrow> CommitLog" where
  "set_committed i c = c(i := COMMITTED)"

definition set_aborted :: "transaction_id_t \<Rightarrow> CommitLog \<Rightarrow> CommitLog" where
  "set_aborted i c = c(i := ABORTED)"

subsection \<open>The engine\<close>

text \<open>
  The members of \<^verbatim>\<open>SingleNodeEngine\<close>, named as in the source without the trailing
  underscore. \<^verbatim>\<open>wal_\<close> is an optional pointer: \<open>None\<close> is
  \<^verbatim>\<open>nullptr\<close>, \<open>Some w\<close> the deltas appended so far. Every method takes \<^verbatim>\<open>lock_\<close> for its
  whole body, so a method is one step from an engine state to the next.
\<close>

record SingleNodeEngine =
  counter :: transaction_id_t
  clog :: CommitLog
  store :: "transaction_id_t \<rightharpoonup> Transaction"
  active :: Snapshot
  wal :: "StateDelta list option"

definition new_SingleNodeEngine :: "StateDelta list option \<Rightarrow> SingleNodeEngine" where
  "new_SingleNodeEngine w =
     \<lparr>counter = 0, clog = (\<lambda>_. ACTIVE), store = Map.empty, active = [], wal = w\<rparr>"

text \<open>\<^verbatim>\<open>std::unordered_map::emplace\<close> keeps the old entry when the key is present.\<close>

definition emplace :: "'k \<Rightarrow> 'v \<Rightarrow> ('k \<rightharpoonup> 'v) \<Rightarrow> ('k \<rightharpoonup> 'v)" where
  "emplace k v m = (case m k of None \<Rightarrow> m(k \<mapsto> v) | Some _ \<Rightarrow> m)"

definition wal_Emplace :: "StateDelta \<Rightarrow> StateDelta list option \<Rightarrow> StateDelta list option" where
  "wal_Emplace d w = map_option (\<lambda>ds. ds @ [d]) w"

definition Begin :: "SingleNodeEngine \<Rightarrow> Transaction \<times> SingleNodeEngine" where
  "Begin e =
     (let i = counter e + 1;
          t = new_Transaction i (active e)
      in (t, e\<lparr>counter := i,
                active := snapshot_insert i (active e),
                store := emplace i t (store e),
                wal := wal_Emplace (TxBegin i) (wal e)\<rparr>))"

definition Advance :: "SingleNodeEngine \<Rightarrow> transaction_id_t \<Rightarrow> command_id_t outcome \<times> SingleNodeEngine" where
  "Advance e i =
     (case store e i of
        None \<Rightarrow> (Fatal, e)
      | Some t \<Rightarrow>
          if cid t = - 1 then (Throws TransactionError, e)
          else (Returns (cid t + 1), e\<lparr>store := (store e)(i \<mapsto> t\<lparr>cid := cid t + 1\<rparr>)\<rparr>))"

definition UpdateCommand :: "SingleNodeEngine \<Rightarrow> transaction_id_t \<Rightarrow> command_id_t outcome" where
  "UpdateCommand e i = (case store e i of None \<Rightarrow> Fatal | Some t \<Rightarrow> Returns (cid t))"

text \<open>
  \<^verbatim>\<open>store_.erase(store_.find(tx_id))\<close> on an id that is not stored erases \<^verbatim>\<open>end()\<close>: the
  process has no defined behaviour from there, which is \<open>Fatal\<close> here. The listeners
  notified after the lock is released are not part of the engine state.
\<close>

definition Commit :: "SingleNodeEngine \<Rightarrow> Transaction \<Rightarrow> unit outcome \<times> SingleNodeEngine" where
  "Commit e t =
     (let tx_id = tid t;
          e' = e\<lparr>clog := set_committed tx_id (clog e),
                 active := snapshot_remove tx_id (active e),
                 wal := wal_Emplace (TxCommit tx_id) (wal e)\<rparr>
      in case store e tx_id of
           None \<Rightarrow> (Fatal, e')
         | Some _ \<Rightarrow> (Returns (), e'\<lparr>store := (store e)(tx_id := None)\<rparr>))"

definition Abort :: "SingleNodeEngine \<Rightarrow> Transaction \<Rightarrow> unit outcome \<times> SingleNodeEngine" where
  "Abort e t =
     (let tx_id = tid t;
          e' = e\<lparr>clog := set_aborted tx_id (clog e),
                 active := snapshot_remove tx_id (active e),
                 wal := wal_Emplace (TxAbort tx_id) (wal e)\<rparr>
      in case store e tx_id of
           None \<Rightarrow> (Fatal, e')
         | Some _ \<Rightarrow> (Returns (), e'\<lparr>store := (store e)(tx_id := None)\<rparr>))"

definition Info :: "SingleNodeEngine \<Rightarrow> transaction_id_t \<Rightarrow> CommitLog_Info" where
  "Info e tx = clog e tx"

definition GlobalGcSnapshot :: "SingleNodeEngine \<Rightarrow> Snapshot outcome" where
  "GlobalGcSnapshot e =
     (if snapshot_size (active e) = 0
      then Returns (snapshot_insert (counter e + 1) (active e))
      else (case store e (snapshot_front (active e)) of
              None \<Rightarrow> Fatal
            | Some t \<Rightarrow> Returns (snapshot_insert (snapshot_front (active e)) (snapshot t))))"

definition GlobalActiveTransactions :: "SingleNodeEngine \<Rightarrow> Snapshot" where
  "GlobalActiveTransactions e = active e"

definition LocalLast :: "SingleNodeEngine \<Rightarrow> transaction_id_t" where
  "LocalLast e = counter e"

subsection \<open>Invariant of the engine state\<close>

text \<open>
  What holds of the engine between calls as long as the 64-bit counter has not wrapped: the
  active set is ascending and holds exactly the ids of the stored transactions, no active id
  is above the counter, and each stored transaction \<open>t\<close> under id \<open>a\<close> has \<open>tid t = a\<close>, a
  snapshot of ids below \<open>a\<close> that holds every still active id below \<open>a\<close>, and agrees with
  the snapshot of every older stored transaction \<open>b\<close> on the ids below \<open>b\<close>.
\<close>

definition tx_inv :: "SingleNodeEngine \<Rightarrow> transaction_id_t \<Rightarrow> Transaction \<Rightarrow> bool" where
  "tx_inv e a t \<longleftrightarrow>
     tid t = a \<and> (\<forall>x \<in> set (snapshot t). x < a) \<and>
     (\<forall>x \<in> set (active e). x < a \<longrightarrow> x \<in> set (snapshot t)) \<and>
     (\<forall>b \<in> set (active e). \<forall>u. store e b = Some u \<longrightarrow> b < a \<longrightarrow>
        (\<forall>x \<in> set (snapshot t). x < b \<longrightarrow> x \<in> set (snapshot u)))"

definition engine_inv :: "SingleNodeEngine \<Rightarrow> bool" where
  "engine_inv e \<longleftrightarrow>
     sorted (active e) \<and> distinct (active e) \<and> dom (store e) = set (active e) \<and>
     (\<forall>a \<in> set (active e). a \<le> counter e) \<and>
     (\<forall>a \<in> set (active e). \<forall>t. store e a = Some t \<longrightarrow> tx_inv e a t)"

text \<open>
  What holds of the engine between calls whatever the counter has done: the active set is
  ascending, every active id has a stored transaction, and a transaction is stored under
  its own id.
\<close>

definition engine_wf :: "SingleNodeEngine \<Rightarrow> bool" where
  "engine_wf e \<longleftrightarrow>
     sorted (active e) \<and> set (active e) \<subseteq> dom (store e) \<and> (\<forall>i t. store e i = Some t \<longrightarrow> tid t = i)"

subsection \<open>Sequences of calls\<close>

text \<open>
  A client of the engine calls its methods one after the other. \<open>CallCommit i\<close> and
  \<open>CallAbort i\<close> pass the stored transaction object of id \<open>i\<close> (the reference the caller got
  from \<^verbatim>\<open>Begin\<close>); on an id that is not stored there is no such object and nothing is called.
  \<open>issued_ids\<close> lists the ids the \<^verbatim>\<open>Begin\<close> calls of a sequence return, in order.
\<close>

datatype engine_call = CallBegin | CallAdvance transaction_id_t
  | CallCommit transaction_id_t | CallAbort transaction_id_t

fun call_engine :: "SingleNodeEngine \<Rightarrow> engine_call \<Rightarrow> SingleNodeEngine" where
  "call_engine e CallBegin = snd (Begin e)"
| "call_engine e (CallAdvance i) = snd (Advance e i)"
| "call_engine e (CallCommit i) = (case store e i of None \<Rightarrow> e | Some t \<Rightarrow> snd (Commit e t))"
| "call_engine e (CallAbort i) = (case store e i of None \<Rightarrow> e | Some t \<Rightarrow> snd (Abort e t))"

fun run_engine :: "SingleNodeEngine \<Rightarrow> engine_call list \<Rightarrow> SingleNodeEngine" where
  "run_engine e [] = e"
| "run_engine e (c # cs) = run_engine (call_engine e c) cs"

fun issued_ids :: "SingleNodeEngine \<Rightarrow> engine_call list \<Rightarrow> transaction_id_t list" where
  "issued_ids e [] = []"
| "issued_ids e (CallBegin # cs) = tid (fst (Begin e)) # issued_ids (call_engine e CallBegin) cs"
| "issued_ids e (c # cs) = issued_ids (call_engine e c) cs"

definition begins :: "engine_call list \<Rightarrow> nat" where
  "begins cs = length (filter (\<lambda>c. c = CallBegin) cs)"

text \<open>
  The oldest active transaction of an engine that has made the calls \<open>cs\<close>: the first id, in
  the order in which \<^verbatim>\<open>Begin\<close> issued them, that is still active (of an id issued twice, the
  later \<^verbatim>\<open>Begin\<close> counts). \<open>begin_commit_cycles n\<close> is the sequence of \<open>n\<close> transactions
  each begun and committed before the next begins.
\<close>

definition oldest_active :: "SingleNodeEngine \<Rightarrow> engine_call list \<Rightarrow> transaction_id_t option" where
  "oldest_active e cs =
     find (\<lambda>i. i \<in> set (active (run_engine e cs))) (remdups (issued_ids e cs))"

fun begin_commit_cycles :: "nat \<Rightarrow> engine_call list" where
  "begin_commit_cycles 0 = []"
| "begin_commit_cycles (Suc n) = begin_commit_cycles n @ [CallBegin, CallCommit (of_nat (Suc n))]"

text \<open>An engine whose only transaction is at its last command id.\<close>

definition engine_at_last_command :: SingleNodeEngine where
  "engine_at_last_command =
     \<lparr>counter = 1, clog = (\<lambda>_. ACTIVE),
      store = [1 \<mapsto> \<lparr>tid = 1, cid = - 1, snapshot = []\<rparr>], active = [1], wal = Some [TxBegin 1]\<rparr>"

subsection \<open>The invariant is kept\<close>

lemma word_succ_no_wrap: "(x :: 64 word) \<noteq> - 1 \<Longrightarrow> unat (x + 1) = unat x + 1"
  using unatSuc [of x] by (simp add: add.commute eq_neg_iff_add_eq_0)

lemma word_less_succ: "(x :: 64 word) \<noteq> - 1 \<Longrightarrow> a \<le> x \<Longrightarrow> a < x + 1"
  by (simp add: word_less_nat_alt word_le_nat_alt word_succ_no_wrap)

lemma engine_inv_new: "engine_inv (new_SingleNodeEngine w)"
  by (simp add: engine_inv_def new_SingleNodeEngine_def)

lemma engine_inv_Begin:
  assumes inv: "engine_inv e" and nowrap: "counter e \<noteq> - 1"
  shows "engine_inv (snd (Begin e))"
proof -
  let ?i = "counter e + 1"
  let ?e = "snd (Begin e)"
  have below: "\<forall>a \<in> set (active e). a < ?i"
    using inv nowrap by (auto simp: engine_inv_def word_less_succ)
  then have fresh: "?i \<notin> set (active e)" by auto
  then have nostore: "store e ?i = None"
    using inv by (auto simp: engine_inv_def)
  have act: "active ?e = insort ?i (active e)"
    using fresh by (simp add: Begin_def Let_def snapshot_insert_def)
  have sact: "set (active ?e) = insert ?i (set (active e))"
    by (simp add: act set_insort_key)
  have sto: "store ?e = (store e)(?i \<mapsto> new_Transaction ?i (active e))"
    using nostore by (simp add: Begin_def Let_def emplace_def)
  have cnt: "counter ?e = ?i"
    by (simp add: Begin_def Let_def)
  have old: "tx_inv e a t" if "a \<in> set (active e)" "store e a = Some t" for a t
    using inv that by (simp add: engine_inv_def)
  have "tx_inv ?e a t" if a: "a \<in> set (active ?e)" and t: "store ?e a = Some t" for a t
  proof (cases "a = ?i")
    case True
    then have "t = new_Transaction ?i (active e)" using t sto by simp
    moreover have "x \<in> set (snapshot u)"
      if "b \<in> set (active e)" "store e b = Some u" "x \<in> set (active e)" "x < b" for b u x
      using old [OF that(1,2)] that(3,4) by (simp add: tx_inv_def)
    ultimately show ?thesis using True below
      unfolding tx_inv_def sact sto by (auto simp: new_Transaction_def)
  next
    case False
    then have o: "a \<in> set (active e)" "store e a = Some t"
      using a t sact sto by auto
    then have "a < ?i" using below by auto
    then have "\<not> ?i < a" by auto
    then show ?thesis using old [OF o]
      unfolding tx_inv_def sact sto by auto
  qed
  moreover have "sorted (active ?e)" "distinct (active ?e)"
    using inv fresh by (simp_all add: act engine_inv_def sorted_insort distinct_insort)
  moreover have "dom (store ?e) = set (active ?e)"
    using inv by (simp add: sto sact engine_inv_def)
  moreover have "\<forall>a \<in> set (active ?e). a \<le> counter ?e"
    using below by (auto simp: sact cnt)
  ultimately show ?thesis
    unfolding engine_inv_def by blast
qed

lemma tx_inv_mono:
  assumes "tx_inv e a t" and "set (active e') \<subseteq> set (active e)"
    and "\<And>b u. store e' b = Some u \<Longrightarrow> \<exists>u'. store e b = Some u' \<and> snapshot u' = snapshot u"
  shows "tx_inv e' a t"
  using assms unfolding tx_inv_def by (fastforce simp: subset_iff)

lemma engine_inv_finish:
  assumes inv: "engine_inv e"
    and act: "active e' = snapshot_remove i (active e)"
    and sto: "store e' = (store e)(i := None)"
    and cnt: "counter e' = counter e"
  shows "engine_inv e'"
proof -
  have s: "set (active e') = set (active e) - {i}"
    by (simp add: act snapshot_remove_def)
  have "tx_inv e' a t" if "a \<in> set (active e')" "store e' a = Some t" for a t
  proof -
    have "tx_inv e a t" using inv that s sto
      by (auto simp: engine_inv_def split: if_splits)
    then show ?thesis
      by (rule tx_inv_mono) (auto simp: s sto split: if_splits)
  qed
  moreover have "sorted (active e')" "distinct (active e')"
    using inv by (simp_all add: act snapshot_remove_def engine_inv_def sorted_wrt_filter
        removeAll_filter_not_eq distinct_removeAll)
  moreover have "dom (store e') = set (active e')"
    using inv by (auto simp: s sto engine_inv_def)
  moreover have "\<forall>a \<in> set (active e'). a \<le> counter e'"
    using inv by (auto simp: s cnt engine_inv_def)
  ultimately show ?thesis
    unfolding engine_inv_def by blast
qed

lemma snapshot_remove_absent: "i \<notin> set s \<Longrightarrow> snapshot_remove i s = s"
  by (simp add: snapshot_remove_def)

lemma engine_inv_cong:
  assumes "engine_inv e" "active e' = active e" "counter e' = counter e"
    "dom (store e') = dom (store e)"
    "\<And>b u. store e' b = Some u \<Longrightarrow> \<exists>u'. store e b = Some u' \<and> snapshot u' = snapshot u \<and> tid u' = tid u"
  shows "engine_inv e'"
  unfolding engine_inv_def
proof (intro conjI ballI allI impI)
  fix a t assume a: "a \<in> set (active e')" and t: "store e' a = Some t"
  obtain t' where t': "store e a = Some t'" "snapshot t' = snapshot t" "tid t' = tid t"
    using assms(5) [OF t] by blast
  then have "tx_inv e a t'" using assms(1,2) a by (simp add: engine_inv_def)
  then have "tx_inv e a t" using t' by (simp add: tx_inv_def)
  then show "tx_inv e' a t"
  proof (rule tx_inv_mono)
    show "set (active e') \<subseteq> set (active e)" using assms(2) by simp
    show "\<exists>u'. store e b = Some u' \<and> snapshot u' = snapshot u" if "store e' b = Some u" for b u
      using assms(5) [OF that] by blast
  qed
qed (use assms in \<open>auto simp: engine_inv_def\<close>)

lemma engine_inv_Commit: "engine_inv e \<Longrightarrow> engine_inv (snd (Commit e t))"
proof (cases "store e (tid t)")
  case None
  assume inv: "engine_inv e"
  then have "tid t \<notin> set (active e)" using None by (auto simp: engine_inv_def)
  then show ?thesis using None inv
    by (intro engine_inv_cong [OF inv]) (simp_all add: Commit_def Let_def snapshot_remove_absent)
next
  case (Some u)
  assume inv: "engine_inv e"
  show ?thesis
    by (rule engine_inv_finish [OF inv, of _ "tid t"]) (simp_all add: Commit_def Let_def Some)
qed

lemma engine_inv_Abort: "engine_inv e \<Longrightarrow> engine_inv (snd (Abort e t))"
proof (cases "store e (tid t)")
  case None
  assume inv: "engine_inv e"
  then have "tid t \<notin> set (active e)" using None by (auto simp: engine_inv_def)
  then show ?thesis using None inv
    by (intro engine_inv_cong [OF inv]) (simp_all add: Abort_def Let_def snapshot_remove_absent)
next
  case (Some u)
  assume inv: "engine_inv e"
  show ?thesis
    by (rule engine_inv_finish [OF inv, of _ "tid t"]) (simp_all add: Abort_def Let_def Some)
qed

lemma engine_inv_Advance: "engine_inv e \<Longrightarrow> engine_inv (snd (Advance e i))"
proof (cases "store e i")
  case None
  assume "engine_inv e"
  then show ?thesis using None by (simp add: Advance_def)
next
  case (Some u)
  assume inv: "engine_inv e"
  show ?thesis
    by (rule engine_inv_cong [OF inv])
      (auto simp: Advance_def Some split: if_splits)
qed

lemma counter_Begin: "counter (snd (Begin e)) = counter e + 1"
  by (simp add: Begin_def Let_def)

lemma counter_call_engine:
  "counter (call_engine e c) = (if c = CallBegin then counter e + 1 else counter e)"
  by (cases c) (auto simp: counter_Begin Advance_def Commit_def Abort_def Let_def split: option.splits)

lemma counter_run_engine: "counter (run_engine e cs) = counter e + of_nat (begins cs)"
  by (induction cs arbitrary: e) (auto simp: counter_call_engine begins_def)

lemma upt_Suc_shift: "[0..<Suc n] = 0 # map Suc [0..<n]"
  unfolding map_Suc_upt by (rule upt_conv_Cons) simp

lemma issued_ids_eq:
  "issued_ids e cs = map (\<lambda>k. counter e + of_nat (Suc k)) [0..<begins cs]"
proof (induction e cs rule: issued_ids.induct)
  case (2 e cs)
  have b: "begins (CallBegin # cs) = Suc (begins cs)" by (simp add: begins_def)
  have t: "tid (fst (Begin e)) = counter e + 1"
    by (simp add: Begin_def Let_def new_Transaction_def)
  show ?case
    unfolding issued_ids.simps b upt_Suc_shift "2.IH" t
    by (simp add: counter_Begin add.assoc comp_def del: upt_Suc)
qed (simp_all add: begins_def counter_call_engine del: call_engine.simps)

lemma unat_max64: "unat (- 1 :: 64 word) = 18446744073709551615"
  by (simp add: unsigned_minus_1_eq_mask mask_eq_exp_minus_1)

lemma engine_inv_call:
  "engine_inv e \<Longrightarrow> (c = CallBegin \<longrightarrow> counter e \<noteq> - 1) \<Longrightarrow> engine_inv (call_engine e c)"
  by (cases c) (auto simp: engine_inv_Begin engine_inv_Advance engine_inv_Commit engine_inv_Abort
      split: option.splits)

lemma unat_counter_run:
  "unat (counter e) + begins cs < 2 ^ 64 \<Longrightarrow> unat (counter (run_engine e cs)) = unat (counter e) + begins cs"
  by (simp add: counter_run_engine unat_add_lem [THEN iffD1] unat_of_nat)

lemma engine_inv_run:
  "engine_inv e \<Longrightarrow> unat (counter e) + begins cs < 2 ^ 64 \<Longrightarrow> engine_inv (run_engine e cs)"
proof (induction cs arbitrary: e)
  case Nil
  then show ?case by simp
next
  case (Cons c cs)
  show ?case
  proof (cases "c = CallBegin")
    case True
    then have lt: "unat (counter e) + Suc (begins cs) < 2 ^ 64"
      using Cons.prems(2) by (simp add: begins_def)
    then have nw: "counter e \<noteq> - 1"
      using unat_max64 by auto
    have "unat (counter (call_engine e c)) = unat (counter e) + 1"
      using nw True by (simp add: counter_Begin word_succ_no_wrap)
    then show ?thesis
      using Cons.IH [of "call_engine e c"] engine_inv_call [OF Cons.prems(1), of c] nw lt
      by simp
  next
    case False
    then have "begins (c # cs) = begins cs" by (simp add: begins_def)
    then show ?thesis
      using Cons.IH [of "call_engine e c"] engine_inv_call [OF Cons.prems(1), of c] False Cons.prems(2)
      by (simp add: counter_call_engine)
  qed
qed

subsection \<open>Advance\<close>

text \<open>
  Claim C4. For a stored (active) transaction whose command id is below the maximum,
  \<^verbatim>\<open>Advance\<close> sets the command id to its successor (no wrap-around: the value grows by
  exactly one) and returns the new value, leaving every other field and transaction as it
  was. At the maximum \<open>2^64 - 1\<close> it throws \<^verbatim>\<open>TransactionError\<close> and the engine state is
  unchanged, so that \<^verbatim>\<open>Abort\<close> of the transaction does what it would have done before the
  call and returns.
\<close>

theorem Advance_bumps_command_or_throws:
  assumes "store e i = Some t" and "tid t = i"
  shows "(cid t \<noteq> - 1 \<longrightarrow>
            Advance e i = (Returns (cid t + 1), e\<lparr>store := (store e)(i \<mapsto> t\<lparr>cid := cid t + 1\<rparr>)\<rparr>)
            \<and> unat (cid t + 1) = unat (cid t) + 1)
       \<and> (cid t = - 1 \<longrightarrow>
            Advance e i = (Throws TransactionError, e)
            \<and> Abort (snd (Advance e i)) t = Abort e t
            \<and> fst (Abort e t) = Returns ())"
  using assms by (simp add: Advance_def Abort_def Let_def word_succ_no_wrap)

theorem Advance_witness:
  "Advance (snd (Begin (new_SingleNodeEngine None))) 1 =
     (Returns 2, (snd (Begin (new_SingleNodeEngine None)))
        \<lparr>store := [1 \<mapsto> \<lparr>tid = 1, cid = 2, snapshot = []\<rparr>]\<rparr>)
   \<and> Advance engine_at_last_command 1 = (Throws TransactionError, engine_at_last_command)
   \<and> fst (Abort engine_at_last_command \<lparr>tid = 1, cid = - 1, snapshot = []\<rparr>) = Returns ()"
  using Advance_bumps_command_or_throws [of "snd (Begin (new_SingleNodeEngine None))" 1 "\<lparr>tid = 1, cid = 1, snapshot = []\<rparr>"]
        Advance_bumps_command_or_throws [of engine_at_last_command 1 "\<lparr>tid = 1, cid = - 1, snapshot = []\<rparr>"]
  by (simp add: Begin_def new_SingleNodeEngine_def new_Transaction_def emplace_def Let_def
        engine_at_last_command_def snapshot_insert_def wal_Emplace_def)

subsection \<open>Begin\<close>

lemma begins_append: "begins (cs @ ds) = begins cs + begins ds"
  by (simp add: begins_def)

lemma begins_replicate: "begins (replicate n CallBegin) = n"
  by (simp add: begins_def)

lemma Begin_fields:
  "tid (fst (Begin e)) = counter e + 1"
  "snapshot (fst (Begin e)) = active e"
  "counter (snd (Begin e)) = counter e + 1"
  "active (snd (Begin e)) = snapshot_insert (counter e + 1) (active e)"
  "wal (snd (Begin e)) = wal_Emplace (TxBegin (counter e + 1)) (wal e)"
  by (simp_all add: Begin_def Let_def new_Transaction_def)

lemma set_snapshot_insert: "set (snapshot_insert i s) = insert i (set s)"
  by (auto simp: snapshot_insert_def set_insort_key)

text \<open>
  Claim C3, amended. \<^verbatim>\<open>Begin\<close> allocates \<open>id = ++counter\<close> on a 64-bit counter. In an
  engine started fresh and driven by any sequence of calls with fewer than \<open>2^64 - 1\<close>
  \<^verbatim>\<open>Begin\<close>s, the next \<^verbatim>\<open>Begin\<close> returns the number of \<^verbatim>\<open>Begin\<close> calls made so far plus
  one (so the ids are 1, 2, 3, ...): it is not 0 and it is above every id issued before. The
  new transaction's snapshot is the active set as it was before the call and does not hold
  the new id; the new id is inserted into the active set, the transaction is stored under
  it, and \<open>TxBegin id\<close> is appended to the WAL (when the engine has one) in the same step.
\<close>

theorem Begin_issues_increasing_fresh_ids:
  assumes few: "begins cs < 2 ^ 64 - 1"
    and e: "e = run_engine (new_SingleNodeEngine w) cs"
    and b: "Begin e = (t, e')"
  shows "tid t = counter e + 1 \<and> counter e' = tid t
       \<and> unat (tid t) = begins cs + 1 \<and> tid t \<noteq> 0
       \<and> issued_ids (new_SingleNodeEngine w) (cs @ [CallBegin])
           = issued_ids (new_SingleNodeEngine w) cs @ [tid t]
       \<and> (\<forall>i \<in> set (issued_ids (new_SingleNodeEngine w) cs). i < tid t)
       \<and> snapshot t = active e \<and> tid t \<notin> set (snapshot t)
       \<and> active e' = snapshot_insert (tid t) (active e)
       \<and> set (active e') = insert (tid t) (set (active e))
       \<and> store e' (tid t) = Some t
       \<and> wal e' = wal_Emplace (TxBegin (tid t)) (wal e)"
proof -
  let ?init = "new_SingleNodeEngine w"
  have c0: "counter ?init = 0" by (simp add: new_SingleNodeEngine_def)
  have t: "t = fst (Begin e)" and e': "e' = snd (Begin e)" using b by simp_all
  have lt: "unat (counter ?init) + begins cs < 2 ^ 64" using few by (simp add: c0)
  have inv: "engine_inv e"
    unfolding e by (rule engine_inv_run [OF engine_inv_new lt])
  have cnt: "unat (counter e) = begins cs"
    unfolding e using unat_counter_run [OF lt] by (simp add: c0)
  have nw: "counter e \<noteq> - 1"
    using cnt few unat_max64 by auto
  have tid: "tid t = counter e + 1" by (simp add: t Begin_fields)
  have utid: "unat (tid t) = begins cs + 1"
    by (simp add: tid word_succ_no_wrap [OF nw] cnt)
  have nz: "tid t \<noteq> 0" using utid by (metis Suc_eq_plus1 nat.simps(3) unat_0)
  have below: "\<forall>a \<in> set (active e). a < tid t"
    using inv nw by (auto simp: tid engine_inv_def word_less_succ)
  then have fresh: "tid t \<notin> set (active e)" by auto
  then have "store e (tid t) = None" using inv by (auto simp: engine_inv_def)
  then have sto: "store e' (tid t) = Some t"
    by (simp add: e' t tid Begin_def Let_def emplace_def new_Transaction_def)
  have ce: "counter e = of_nat (begins cs)"
    unfolding e by (simp add: counter_run_engine c0)
  have iss: "issued_ids ?init (cs @ [CallBegin]) = issued_ids ?init cs @ [tid t]"
    by (simp add: issued_ids_eq begins_append begins_def c0 tid ce)
  have older: "i < tid t" if "i \<in> set (issued_ids ?init cs)" for i
  proof -
    have "i \<in> (\<lambda>k. word_of_nat (Suc k)) ` {0..<begins cs}"
      using that unfolding issued_ids_eq c0 by (simp del: of_nat_Suc)
    then obtain k where k: "k < begins cs" "i = of_nat (Suc k)"
      by (auto simp del: of_nat_Suc)
    have "unat i = Suc k"
      using k few by (simp add: unat_of_nat del: of_nat_Suc)
    then show ?thesis using k utid by (simp add: word_less_nat_alt)
  qed
  show ?thesis
    using tid utid nz iss older fresh sto
    by (simp add: e' t Begin_fields set_snapshot_insert)
qed

text \<open>Three calls, then a fourth \<^verbatim>\<open>Begin\<close>: it gets id 3 and the snapshot \<open>[2]\<close>.\<close>

theorem Begin_issues_increasing_fresh_ids_witness:
  "tid (fst (Begin (run_engine (new_SingleNodeEngine (Some [])) [CallBegin, CallBegin, CallCommit 1]))) = 3
   \<and> issued_ids (new_SingleNodeEngine (Some [])) [CallBegin, CallBegin, CallCommit 1, CallBegin] = [1, 2, 3]
   \<and> snapshot (fst (Begin (run_engine (new_SingleNodeEngine (Some [])) [CallBegin, CallBegin, CallCommit 1]))) = [2]
   \<and> active (snd (Begin (run_engine (new_SingleNodeEngine (Some [])) [CallBegin, CallBegin, CallCommit 1]))) = [2, 3]
   \<and> wal (snd (Begin (run_engine (new_SingleNodeEngine (Some [])) [CallBegin, CallBegin, CallCommit 1])))
        = Some [TxBegin 1, TxBegin 2, TxCommit 1, TxBegin 3]"
  using Begin_issues_increasing_fresh_ids
    [of "[CallBegin, CallBegin, CallCommit 1]"
        "run_engine (new_SingleNodeEngine (Some [])) [CallBegin, CallBegin, CallCommit 1]"
        "Some []"
        "fst (Begin (run_engine (new_SingleNodeEngine (Some [])) [CallBegin, CallBegin, CallCommit 1]))"
        "snd (Begin (run_engine (new_SingleNodeEngine (Some [])) [CallBegin, CallBegin, CallCommit 1]))"]
  by (simp add: begins_def Begin_def Commit_def new_SingleNodeEngine_def new_Transaction_def
      emplace_def Let_def snapshot_insert_def snapshot_remove_def wal_Emplace_def set_committed_def)

text \<open>
  Claim C3 as stated fails when the counter wraps: the \<open>2^64\<close>-th \<^verbatim>\<open>Begin\<close> of an engine
  returns id 0, and the next one returns id 1 again, the id of the first.
\<close>

theorem Begin_wraps_to_id_zero:
  "issued_ids (new_SingleNodeEngine None) (replicate (2 ^ 64 + 1) CallBegin) ! (2 ^ 64 - 1) = 0
   \<and> issued_ids (new_SingleNodeEngine None) (replicate (2 ^ 64 + 1) CallBegin) ! (2 ^ 64)
     = issued_ids (new_SingleNodeEngine None) (replicate (2 ^ 64 + 1) CallBegin) ! 0"
proof -
  have z: "(word_of_nat (2 ^ 64) :: 64 word) = 0" by simp
  have "(word_of_nat (Suc (2 ^ 64 - 1)) :: 64 word) = 0"
    using z by (simp del: of_nat_Suc)
  moreover have "(word_of_nat (Suc (2 ^ 64)) :: 64 word) = word_of_nat (Suc 0)"
    using z by simp
  ultimately show ?thesis
    by (simp add: issued_ids_eq begins_replicate new_SingleNodeEngine_def del: of_nat_Suc upt_Suc)
qed

subsection \<open>GlobalGcSnapshot\<close>

lemma sorted_hd_least: "sorted xs \<Longrightarrow> a \<in> set xs \<Longrightarrow> hd xs \<le> a"
  by (cases xs) auto

lemma GlobalGcSnapshot_under_inv:
  assumes inv: "engine_inv e"
  shows "(active e = [] \<longrightarrow> GlobalGcSnapshot e = Returns [counter e + 1])
       \<and> (active e \<noteq> [] \<longrightarrow>
            (\<exists>t. store e (snapshot_front (active e)) = Some t
                \<and> tid t = snapshot_front (active e)
                \<and> (\<forall>a \<in> set (active e). tid t \<le> a)
                \<and> GlobalGcSnapshot e = Returns (snapshot_insert (tid t) (snapshot t))
                \<and> set (snapshot_insert (tid t) (snapshot t)) = insert (tid t) (set (snapshot t))))
       \<and> (\<forall>g. GlobalGcSnapshot e = Returns g \<longrightarrow>
            (\<forall>a \<in> set (active e). \<forall>x \<in> set g. x \<le> a)
            \<and> (\<forall>a t x. store e a = Some t \<longrightarrow> (x \<in> set (snapshot t) \<or> a \<le> x) \<longrightarrow>
                  x \<in> set g \<or> (\<forall>y \<in> set g. y \<le> x)))"
proof (cases "active e = []")
  case True
  then have "store e = Map.empty" using inv by (auto simp: engine_inv_def)
  then show ?thesis using True
    by (simp add: GlobalGcSnapshot_def snapshot_size_def snapshot_insert_def)
next
  case False
  let ?f = "snapshot_front (active e)"
  have f_in: "?f \<in> set (active e)" using False by (simp add: snapshot_front_def)
  then have "?f \<in> dom (store e)" using inv by (simp add: engine_inv_def)
  then obtain t where t: "store e ?f = Some t" by blast
  have tinv: "tx_inv e ?f t" using inv f_in t by (simp add: engine_inv_def)
  then have tid: "tid t = ?f" by (simp add: tx_inv_def)
  have least: "?f \<le> a" if "a \<in> set (active e)" for a
    using inv that by (simp add: engine_inv_def snapshot_front_def sorted_hd_least)
  have gc: "GlobalGcSnapshot e = Returns (snapshot_insert (tid t) (snapshot t))"
    using False t by (simp add: GlobalGcSnapshot_def snapshot_size_def tid)
  have below: "y \<le> ?f" if "y \<in> set (snapshot_insert (tid t) (snapshot t))" for y
    using that tinv by (auto simp: set_snapshot_insert tx_inv_def)
  have keep: "x \<in> set (snapshot_insert (tid t) (snapshot t)) \<or>
              (\<forall>y \<in> set (snapshot_insert (tid t) (snapshot t)). y \<le> x)"
    if a: "store e a = Some u" and x: "x \<in> set (snapshot u) \<or> a \<le> x" for a u x
  proof (cases "?f \<le> x")
    case True
    then show ?thesis using below by force
  next
    case lt: False
    have a_in: "a \<in> set (active e)" using inv a by (auto simp: engine_inv_def)
    then have fa: "?f \<le> a" by (rule least)
    then have xs: "x \<in> set (snapshot u)" using x lt by auto
    show ?thesis
    proof (cases "?f = a")
      case True
      then have "u = t" using a t by simp
      then show ?thesis using xs by (simp add: set_snapshot_insert)
    next
      case False
      then have "?f < a" using fa by simp
      moreover have "tx_inv e a u" using inv a_in a by (simp add: engine_inv_def)
      ultimately have "x \<in> set (snapshot t)"
        using f_in t xs lt unfolding tx_inv_def by (meson not_le_imp_less)
      then show ?thesis by (simp add: set_snapshot_insert)
    qed
  qed
  have bound: "x \<le> a"
    if "a \<in> set (active e)" "x \<in> set (snapshot_insert (tid t) (snapshot t))" for a x
    using below [OF that(2)] least [OF that(1)] by (rule order_trans)
  have "\<exists>t. store e ?f = Some t \<and> tid t = ?f \<and> (\<forall>a \<in> set (active e). tid t \<le> a)
          \<and> GlobalGcSnapshot e = Returns (snapshot_insert (tid t) (snapshot t))
          \<and> set (snapshot_insert (tid t) (snapshot t)) = insert (tid t) (set (snapshot t))"
    using t tid gc least by (auto simp: set_snapshot_insert)
  then show ?thesis
    using False bound keep by (simp add: gc)
qed

lemma engine_inv_wf: "engine_inv e \<Longrightarrow> engine_wf e"
  unfolding engine_inv_def engine_wf_def tx_inv_def by (metis domI order_refl)

lemma engine_wf_new: "engine_wf (new_SingleNodeEngine w)"
  by (simp add: engine_wf_def new_SingleNodeEngine_def)

lemma engine_wf_Begin: "engine_wf e \<Longrightarrow> engine_wf (snd (Begin e))"
  unfolding engine_wf_def
  by (auto simp: Begin_def Let_def snapshot_insert_def emplace_def new_Transaction_def
      sorted_insort set_insort_key split: option.splits)

lemma engine_wf_Advance: "engine_wf e \<Longrightarrow> engine_wf (snd (Advance e i))"
  unfolding engine_wf_def
  by (auto simp: Advance_def split: option.splits)

lemma engine_wf_Commit: "engine_wf e \<Longrightarrow> engine_wf (snd (Commit e t))"
  unfolding engine_wf_def
  by (auto simp: Commit_def Let_def snapshot_remove_def sorted_wrt_filter removeAll_filter_not_eq
      split: option.splits if_splits)

lemma engine_wf_Abort: "engine_wf e \<Longrightarrow> engine_wf (snd (Abort e t))"
  unfolding engine_wf_def
  by (auto simp: Abort_def Let_def snapshot_remove_def sorted_wrt_filter removeAll_filter_not_eq
      split: option.splits if_splits)

lemma engine_wf_call: "engine_wf e \<Longrightarrow> engine_wf (call_engine e c)"
  by (cases c) (auto simp: engine_wf_Begin engine_wf_Advance engine_wf_Commit engine_wf_Abort
      split: option.splits)

lemma engine_wf_run: "engine_wf e \<Longrightarrow> engine_wf (run_engine e cs)"
  by (induction cs arbitrary: e) (auto simp: engine_wf_call simp del: call_engine.simps)

lemma GlobalGcSnapshot_front:
  assumes wf: "engine_wf e" and ne: "active e \<noteq> []"
  shows "\<exists>t. store e (snapshot_front (active e)) = Some t
            \<and> tid t = snapshot_front (active e)
            \<and> (\<forall>a \<in> set (active e). tid t \<le> a)
            \<and> GlobalGcSnapshot e = Returns (snapshot_insert (tid t) (snapshot t))
            \<and> set (snapshot_insert (tid t) (snapshot t)) = insert (tid t) (set (snapshot t))"
proof -
  let ?f = "snapshot_front (active e)"
  have "?f \<in> set (active e)" using ne by (simp add: snapshot_front_def)
  then have "?f \<in> dom (store e)" using wf by (auto simp: engine_wf_def)
  then obtain t where t: "store e ?f = Some t" by blast
  then have tid: "tid t = ?f" using wf by (simp add: engine_wf_def)
  have "?f \<le> a" if "a \<in> set (active e)" for a
    using wf that by (simp add: engine_wf_def snapshot_front_def sorted_hd_least)
  then show ?thesis
    using t tid ne by (auto simp: GlobalGcSnapshot_def snapshot_size_def set_snapshot_insert)
qed

lemma run_engine_append: "run_engine e (cs @ ds) = run_engine (run_engine e cs) ds"
  by (induction cs arbitrary: e) simp_all

lemma active_call_engine:
  "set (active (call_engine e c)) \<subseteq> set (active e) \<union> (if c = CallBegin then {counter e + 1} else {})"
  by (cases c)
    (auto simp: Begin_fields set_snapshot_insert Advance_def Commit_def Abort_def Let_def
      snapshot_remove_def split: option.splits if_splits)

lemma issued_ids_Cons:
  "set (issued_ids e (c # cs))
     = (if c = CallBegin then {counter e + 1} else {}) \<union> set (issued_ids (call_engine e c) cs)"
  by (cases c) (simp_all add: Begin_fields)

lemma active_subset_issued:
  "set (active (run_engine e cs)) \<subseteq> set (active e) \<union> set (issued_ids e cs)"
proof (induction cs arbitrary: e)
  case Nil
  then show ?case by simp
next
  case (Cons c cs)
  have "set (active (run_engine (call_engine e c) cs))
          \<subseteq> set (active (call_engine e c)) \<union> set (issued_ids (call_engine e c) cs)"
    by (rule Cons.IH)
  then show ?case
    using active_call_engine [of e c] unfolding issued_ids_Cons run_engine.simps by blast
qed

lemma find_first_of_sorted:
  assumes "sorted xs" and "sorted ys" and "set ys \<subseteq> set xs" and "ys \<noteq> []"
  shows "find (\<lambda>i. i \<in> set ys) xs = Some (hd ys)"
  using assms
proof (induction xs)
  case Nil
  then show ?case by simp
next
  case (Cons x xs)
  show ?case
  proof (cases "x \<in> set ys")
    case True
    have "hd ys \<in> set (x # xs)" using Cons.prems(3,4) by (metis hd_in_set subsetD)
    then have "x \<le> hd ys" using Cons.prems(1) by auto
    moreover have "hd ys \<le> x" using Cons.prems(2) True by (rule sorted_hd_least)
    ultimately show ?thesis using True by simp
  next
    case False
    then have "set ys \<subseteq> set xs" using Cons.prems(3) by auto
    then show ?thesis using Cons False by simp
  qed
qed

lemma issued_ids_sorted:
  assumes "begins cs < 2 ^ 64"
  shows "sorted_wrt (<) (issued_ids (new_SingleNodeEngine w) cs)"
proof -
  have u: "unat (word_of_nat (Suc k) :: 64 word) = Suc k" if "k < begins cs" for k
    using that assms by (simp add: unat_of_nat del: of_nat_Suc)
  have "sorted_wrt (<) (map (\<lambda>k. word_of_nat (Suc k) :: 64 word) [0..<begins cs])"
    unfolding sorted_wrt_map
    by (rule sorted_wrt_mono_rel [of _ "(<)"])
       (auto simp: word_less_nat_alt u simp del: of_nat_Suc)
  then show ?thesis
    by (simp add: issued_ids_eq new_SingleNodeEngine_def del: of_nat_Suc)
qed

lemma oldest_active_front:
  assumes few: "begins cs < 2 ^ 64" and ne: "active (run_engine (new_SingleNodeEngine w) cs) \<noteq> []"
  shows "oldest_active (new_SingleNodeEngine w) cs
           = Some (snapshot_front (active (run_engine (new_SingleNodeEngine w) cs)))"
proof -
  let ?e = "run_engine (new_SingleNodeEngine w) cs"
  let ?is = "issued_ids (new_SingleNodeEngine w) cs"
  have s: "sorted_wrt (<) ?is" by (rule issued_ids_sorted [OF few])
  then have d: "distinct ?is" and so: "sorted ?is"
    by (simp_all add: strict_sorted_iff)
  have "engine_wf ?e" by (rule engine_wf_run [OF engine_wf_new])
  then have sa: "sorted (active ?e)" by (simp add: engine_wf_def)
  have sub: "set (active ?e) \<subseteq> set ?is"
    using active_subset_issued [of "new_SingleNodeEngine w" cs] by (simp add: new_SingleNodeEngine_def)
  show ?thesis
    unfolding oldest_active_def distinct_remdups_id [OF d] snapshot_front_def
    by (rule find_first_of_sorted [OF so sa sub ne])
qed

text \<open>
  Claim C2, amended. In an engine started fresh and driven by any sequence of calls with
  fewer than \<open>2^64\<close> \<^verbatim>\<open>Begin\<close>s: with no active transaction \<^verbatim>\<open>GlobalGcSnapshot\<close> returns
  exactly \<open>{counter + 1}\<close>; otherwise it returns the snapshot of the oldest active
  transaction, the one that began first among the active ones, with that transaction's id
  inserted, and that id is the least active id. Consequently every id of the returned
  snapshot is at most every active id, and every id an active transaction still treats as
  concurrent (a member of its snapshot, or an id not below its own) is a member of the
  returned snapshot or not below any of its members: the collector, which reclaims only what
  lies below the returned snapshot and outside it, takes nothing an active reader needs.
\<close>

theorem GlobalGcSnapshot_is_oldest_snapshot:
  assumes few: "begins cs < 2 ^ 64" and e: "e = run_engine (new_SingleNodeEngine w) cs"
  shows "(active e = [] \<longrightarrow> GlobalGcSnapshot e = Returns [counter e + 1])
       \<and> (active e \<noteq> [] \<longrightarrow>
            (\<exists>t. oldest_active (new_SingleNodeEngine w) cs = Some (tid t)
                \<and> store e (tid t) = Some t
                \<and> (\<forall>a \<in> set (active e). tid t \<le> a)
                \<and> GlobalGcSnapshot e = Returns (snapshot_insert (tid t) (snapshot t))
                \<and> set (snapshot_insert (tid t) (snapshot t)) = insert (tid t) (set (snapshot t))))
       \<and> (\<forall>g. GlobalGcSnapshot e = Returns g \<longrightarrow>
            (\<forall>a \<in> set (active e). \<forall>x \<in> set g. x \<le> a)
            \<and> (\<forall>a t x. store e a = Some t \<longrightarrow> (x \<in> set (snapshot t) \<or> a \<le> x) \<longrightarrow>
                  x \<in> set g \<or> (\<forall>y \<in> set g. y \<le> x)))"
proof -
  have inv: "engine_inv e"
    unfolding e using few by (intro engine_inv_run [OF engine_inv_new]) (simp add: new_SingleNodeEngine_def)
  have wf: "engine_wf e" unfolding e by (rule engine_wf_run [OF engine_wf_new])
  have oldest: "\<exists>t. oldest_active (new_SingleNodeEngine w) cs = Some (tid t)
                \<and> store e (tid t) = Some t
                \<and> (\<forall>a \<in> set (active e). tid t \<le> a)
                \<and> GlobalGcSnapshot e = Returns (snapshot_insert (tid t) (snapshot t))
                \<and> set (snapshot_insert (tid t) (snapshot t)) = insert (tid t) (set (snapshot t))"
    if ne: "active e \<noteq> []"
  proof -
    obtain t where t: "store e (snapshot_front (active e)) = Some t"
      "tid t = snapshot_front (active e)" "\<forall>a \<in> set (active e). tid t \<le> a"
      "GlobalGcSnapshot e = Returns (snapshot_insert (tid t) (snapshot t))"
      "set (snapshot_insert (tid t) (snapshot t)) = insert (tid t) (set (snapshot t))"
      using GlobalGcSnapshot_front [OF wf ne] by blast
    have o: "oldest_active (new_SingleNodeEngine w) cs = Some (tid t)"
      using oldest_active_front [OF few, of w] ne unfolding e t(2) by simp
    have s: "store e (tid t) = Some t" using t(1) by (simp add: t(2))
    show ?thesis using o s t(3,4,5) by blast
  qed
  show ?thesis
    using GlobalGcSnapshot_under_inv [OF inv] oldest by blast
qed

text \<open>
  Transactions 2 and 3 active, 1 committed: the oldest is 2 and the result is its snapshot
  and 2 itself. A transaction begun and committed: the result is the next id.
\<close>

theorem GlobalGcSnapshot_is_oldest_snapshot_witness:
  "oldest_active (new_SingleNodeEngine None) [CallBegin, CallBegin, CallCommit 1, CallBegin] = Some 2
   \<and> active (run_engine (new_SingleNodeEngine None) [CallBegin, CallBegin, CallCommit 1, CallBegin]) = [2, 3]
   \<and> store (run_engine (new_SingleNodeEngine None) [CallBegin, CallBegin, CallCommit 1, CallBegin]) 2
        = Some \<lparr>tid = 2, cid = 1, snapshot = [1]\<rparr>
   \<and> GlobalGcSnapshot (run_engine (new_SingleNodeEngine None) [CallBegin, CallBegin, CallCommit 1, CallBegin])
        = Returns [1, 2]
   \<and> GlobalGcSnapshot (run_engine (new_SingleNodeEngine None) [CallBegin, CallCommit 1]) = Returns [2]"
proof -
  let ?cs = "[CallBegin, CallBegin, CallCommit 1, CallBegin]"
  define d where "d = run_engine (new_SingleNodeEngine None) ?cs"
  define c where "c = run_engine (new_SingleNodeEngine None) [CallBegin, CallCommit 1]"
  have b: "begins ?cs < 2 ^ 64" "begins [CallBegin, CallCommit 1] < 2 ^ 64" by (simp_all add: begins_def)
  note t = GlobalGcSnapshot_is_oldest_snapshot [OF b(1) d_def]
  have e: "d = \<lparr>counter = 3, clog = (\<lambda>_. ACTIVE)(1 := COMMITTED),
        store = [2 \<mapsto> \<lparr>tid = 2, cid = 1, snapshot = [1]\<rparr>, 3 \<mapsto> \<lparr>tid = 3, cid = 1, snapshot = [2]\<rparr>],
        active = [2, 3], wal = None\<rparr>"
    unfolding d_def
    by (simp add: Begin_def Commit_def new_SingleNodeEngine_def new_Transaction_def
      emplace_def Let_def snapshot_insert_def snapshot_remove_def wal_Emplace_def set_committed_def fun_upd_twist)
  have ne: "active d \<noteq> []" unfolding e by simp
  obtain u where u: "oldest_active (new_SingleNodeEngine None) ?cs = Some (tid u)"
    "store d (tid u) = Some u" "\<forall>a \<in> set (active d). tid u \<le> a"
    "GlobalGcSnapshot d = Returns (snapshot_insert (tid u) (snapshot u))"
    using t ne by blast
  have "tid u \<in> set (active d)"
    using u(2) unfolding e by (auto split: if_splits)
  then have "tid u = 2" using u(3) unfolding e by (auto simp: word_le_nat_alt)
  then have "u = \<lparr>tid = 2, cid = 1, snapshot = [1]\<rparr>" using u(2) unfolding e by simp
  then have g: "oldest_active (new_SingleNodeEngine None) ?cs = Some 2"
    "GlobalGcSnapshot d = Returns [1, 2]"
    using u(1,4) by (simp_all add: snapshot_insert_def word_le_nat_alt)
  have a0: "active c = []" "counter c = 1"
    unfolding c_def
    by (simp_all add: Begin_def Commit_def new_SingleNodeEngine_def new_Transaction_def
      emplace_def Let_def snapshot_insert_def snapshot_remove_def)
  have "GlobalGcSnapshot c = Returns [2]"
    using GlobalGcSnapshot_is_oldest_snapshot [OF b(2) c_def] a0 by simp
  then show ?thesis using g e unfolding d_def [symmetric] c_def [symmetric] by simp
qed

lemma begins_cycles: "begins (begin_commit_cycles n) = n"
  by (induction n) (simp_all add: begins_append begins_def)

lemma cycles_state:
  "counter (run_engine (new_SingleNodeEngine w) (begin_commit_cycles n)) = of_nat n
   \<and> active (run_engine (new_SingleNodeEngine w) (begin_commit_cycles n)) = []
   \<and> store (run_engine (new_SingleNodeEngine w) (begin_commit_cycles n)) = Map.empty"
proof (induction n)
  case 0
  then show ?case by (simp add: new_SingleNodeEngine_def)
next
  case (Suc n)
  let ?e = "run_engine (new_SingleNodeEngine w) (begin_commit_cycles n)"
  have "counter ?e = of_nat n" "active ?e = []" "store ?e = Map.empty" using Suc by simp_all
  then show ?case
    by (simp add: run_engine_append Begin_def Commit_def Let_def emplace_def new_Transaction_def
        snapshot_insert_def snapshot_remove_def add.commute)
qed

lemma two_begins_after_cycles:
  assumes "counter e = - 2" "active e = []" "store e = Map.empty"
  shows "active (run_engine e [CallBegin, CallBegin]) = [0, - 1]"
    and "store (run_engine e [CallBegin, CallBegin]) (- 1) = Some \<lparr>tid = - 1, cid = 1, snapshot = []\<rparr>"
    and "store (run_engine e [CallBegin, CallBegin]) 0 = Some \<lparr>tid = 0, cid = 1, snapshot = [- 1]\<rparr>"
  using assms
  by (simp_all add: Begin_def Let_def emplace_def new_Transaction_def snapshot_insert_def)

text \<open>
  Claim C2 as stated fails when the counter wraps. After \<open>2^64 - 2\<close> transactions begun
  and committed one after the other, two more \<^verbatim>\<open>Begin\<close>s return the ids \<open>2^64 - 1\<close> and 0.
  Both transactions are active and the first of them is the oldest; its snapshot is empty.
  \<^verbatim>\<open>GlobalGcSnapshot\<close> takes the front of the active set, which is the id 0 of the
  transaction begun last, and returns that transaction's snapshot with 0 inserted.
\<close>

theorem GlobalGcSnapshot_after_wrap_is_not_oldest:
  "oldest_active (new_SingleNodeEngine None) (begin_commit_cycles (2 ^ 64 - 2) @ [CallBegin, CallBegin])
     = Some (- 1)
   \<and> store (run_engine (new_SingleNodeEngine None)
              (begin_commit_cycles (2 ^ 64 - 2) @ [CallBegin, CallBegin])) (- 1)
       = Some \<lparr>tid = - 1, cid = 1, snapshot = []\<rparr>
   \<and> active (run_engine (new_SingleNodeEngine None)
              (begin_commit_cycles (2 ^ 64 - 2) @ [CallBegin, CallBegin])) = [0, - 1]
   \<and> GlobalGcSnapshot (run_engine (new_SingleNodeEngine None)
              (begin_commit_cycles (2 ^ 64 - 2) @ [CallBegin, CallBegin])) = Returns [0, - 1]
   \<and> snapshot_insert (- 1) [] \<noteq> [0, - 1]"
proof -
  let ?n = "2 ^ 64 - 2 :: nat"
  let ?cs = "begin_commit_cycles ?n @ [CallBegin, CallBegin]"
  let ?e0 = "run_engine (new_SingleNodeEngine None) (begin_commit_cycles ?n)"
  define d where "d = run_engine (new_SingleNodeEngine None) ?cs"
  have c: "counter ?e0 = - 2" using cycles_state [of None ?n] by simp
  have a: "active ?e0 = []" "store ?e0 = Map.empty" using cycles_state [of None ?n] by simp_all
  have d: "d = run_engine ?e0 [CallBegin, CallBegin]" unfolding d_def by (rule run_engine_append)
  note tb = two_begins_after_cycles [OF c a, folded d]
  have g: "GlobalGcSnapshot d = Returns [0, - 1]"
    by (simp add: GlobalGcSnapshot_def tb snapshot_size_def snapshot_front_def snapshot_insert_def)
  have b: "begins ?cs = 2 ^ 64" by (simp add: begins_append begins_cycles) (simp add: begins_def)
  let ?is = "map (\<lambda>k. word_of_nat (Suc k) :: 64 word) [0..<2 ^ 64]"
  have ids: "issued_ids (new_SingleNodeEngine None) ?cs = ?is"
    unfolding issued_ids_eq b by (simp add: new_SingleNodeEngine_def del: of_nat_Suc upt_Suc)
  have u: "unat (word_of_nat (Suc k) :: 64 word) = Suc k" if "Suc k < 2 ^ 64" for k
    using that by (simp add: unat_of_nat del: of_nat_Suc)
  have inj: "inj_on (\<lambda>k. word_of_nat (Suc k) :: 64 word) {0..<2 ^ 64}"
  proof (rule inj_onI)
    fix j k :: nat
    assume j: "j \<in> {0..<2 ^ 64}" and k: "k \<in> {0..<2 ^ 64}"
      and eq: "(word_of_nat (Suc j) :: 64 word) = word_of_nat (Suc k)"
    have "Suc j mod 2 ^ 64 = Suc k mod 2 ^ 64"
      using eq by (simp add: word_of_nat_eq_iff take_bit_eq_mod del: of_nat_Suc)
    then show "j = k" using j k
      by (metis atLeastLessThan_iff Suc_lessI mod_less mod_self nat.inject nat.simps(3))
  qed
  have dist: "distinct ?is" using inj by (simp add: distinct_map del: of_nat_Suc upt_Suc)
  have m1: "(word_of_nat (Suc ?n) :: 64 word) = - 1" by simp
  have first: "find (\<lambda>i. i \<in> set [0, - 1 :: 64 word]) ?is = Some (- 1)"
    unfolding find_Some_iff
  proof (intro exI [of _ ?n] conjI allI impI)
    show "?n < length ?is" by simp
    show "?is ! ?n \<in> set [0, - 1]" using m1 by (simp del: of_nat_Suc upt_Suc)
    show "- 1 = ?is ! ?n" using m1 by (simp del: of_nat_Suc upt_Suc)
    fix j assume j: "j < ?n"
    then have "unat (word_of_nat (Suc j) :: 64 word) = Suc j" by (intro u) simp
    then have "(word_of_nat (Suc j) :: 64 word) \<noteq> 0" "(word_of_nat (Suc j) :: 64 word) \<noteq> - 1"
      using j unat_max64 by (auto simp del: of_nat_Suc)
    then show "\<not> ?is ! j \<in> set [0, - 1]" using j by (simp del: of_nat_Suc upt_Suc)
  qed
  have "oldest_active (new_SingleNodeEngine None) ?cs = Some (- 1)"
    unfolding oldest_active_def ids distinct_remdups_id [OF dist] tb(1) [unfolded d_def] by (rule first)
  moreover have "snapshot_insert (- 1) [] \<noteq> [0, - 1 :: 64 word]" by (simp add: snapshot_insert_def)
  ultimately show ?thesis using tb g unfolding d_def by blast
qed

section \<open>The graph database and its accessor\<close>

text \<open>
  Modelled from the spec: the decoder's value type (\<^verbatim>\<open>communication/bolt/v1/decoder\<close>) is not
  among the sources. It is the tagged value of the snapshot and WAL encoding: Null, Bool,
  Int64, Float64, String, List, Map, Vertex and Edge. An integer is kept as its 64 bits (the
  source converts it to \<^verbatim>\<open>uint64_t\<close> ids and counts), a double as its 64 bits, a vertex as
  its id, labels and properties, an edge as its id, endpoints, type and properties.
\<close>

datatype DecodedValue =
    DNull | DBool bool | DInt "64 word" | DDouble "64 word" | DString string
  | DList "DecodedValue list" | DMap "(string \<times> DecodedValue) list"
  | DVertex Gid "string list" "(string \<times> DecodedValue) list"
  | DEdge Gid Gid Gid string "(string \<times> DecodedValue) list"

text \<open>
  The calls recovery makes on record accessors and indexes whose code is not among the
  sources (\<^verbatim>\<open>add_label\<close>, \<^verbatim>\<open>PropsSet\<close>, \<^verbatim>\<open>StateDelta::Apply\<close>, the index update of
  \<^verbatim>\<open>BuildIndex\<close>). They are kept as a log of the database, each entry with the id of the
  calling transaction: recovery decides whether and in which order they happen, not what
  they do to a record.
\<close>

datatype record_op =
    add_label Gid string
  | PropsSet Gid string DecodedValue
  | Apply StateDelta
  | UpdateOnLabelProperty string string

text \<open>
  The members of \<^verbatim>\<open>GraphDb\<close> the accessor and recovery use. \<^verbatim>\<open>vertices_\<close> and \<^verbatim>\<open>edges_\<close> are
  the concurrent maps keyed by gid (a vertex with the id of the transaction that inserted
  it, an edge with its endpoints and type as well); the two generators are their next local
  ids; the WAL \<^verbatim>\<open>db_.wal_\<close> is the log the engine writes to, \<open>wal (tx_engine db)\<close>.
\<close>

record GraphDb =
  worker_id :: int
  tx_engine :: SingleNodeEngine
  vertex_generator :: "64 word"
  edge_generator :: "64 word"
  vertices :: "Gid \<rightharpoonup> transaction_id_t"
  edges :: "Gid \<rightharpoonup> Gid \<times> Gid \<times> string \<times> transaction_id_t"
  record_ops :: "(transaction_id_t \<times> record_op) list"
  label_property_index :: "(string \<times> string) list"
  index_build_tx_in_progress :: "transaction_id_t list"

definition db_wal_Emplace :: "StateDelta \<Rightarrow> GraphDb \<Rightarrow> GraphDb" where
  "db_wal_Emplace d db = db\<lparr>tx_engine := (tx_engine db)\<lparr>wal := wal_Emplace d (wal (tx_engine db))\<rparr>\<rparr>"


text \<open>
  A \<^verbatim>\<open>GraphDbAccessor\<close>: the object of its transaction as \<^verbatim>\<open>Begin\<close> returned it (the methods
  read its \<^verbatim>\<open>id_\<close> only) and the two flags. The constructor begins a transaction; \<^verbatim>\<open>Commit\<close>
  and \<^verbatim>\<open>Abort\<close> hand the transaction to the engine; the destructor aborts a transaction that
  was neither committed nor aborted.
\<close>

record GraphDbAccessor =
  transaction :: Transaction
  commited :: bool
  aborted :: bool

definition accessor_transaction_id :: "GraphDbAccessor \<Rightarrow> transaction_id_t" where
  "accessor_transaction_id dba = tid (transaction dba)"

definition new_GraphDbAccessor :: "GraphDb \<Rightarrow> GraphDbAccessor \<times> GraphDb" where
  "new_GraphDbAccessor db =
     (let (t, e) = Begin (tx_engine db)
      in (\<lparr>transaction = t, commited = False, aborted = False\<rparr>, db\<lparr>tx_engine := e\<rparr>))"

definition GraphDbAccessor_Commit ::
  "GraphDbAccessor \<times> GraphDb \<Rightarrow> (GraphDbAccessor \<times> GraphDb) outcome" where
  "GraphDbAccessor_Commit x =
     (case x of (dba, db) \<Rightarrow>
        if commited dba \<or> aborted dba then Fatal
        else (case Commit (tx_engine db) (transaction dba) of
                (Returns _, e) \<Rightarrow> Returns (dba\<lparr>commited := True\<rparr>, db\<lparr>tx_engine := e\<rparr>)
              | (Throws ex, _) \<Rightarrow> Throws ex
              | (Fatal, _) \<Rightarrow> Fatal
              | (Hangs, _) \<Rightarrow> Hangs))"

definition GraphDbAccessor_Abort ::
  "GraphDbAccessor \<times> GraphDb \<Rightarrow> (GraphDbAccessor \<times> GraphDb) outcome" where
  "GraphDbAccessor_Abort x =
     (case x of (dba, db) \<Rightarrow>
        if commited dba \<or> aborted dba then Fatal
        else (case Abort (tx_engine db) (transaction dba) of
                (Returns _, e) \<Rightarrow> Returns (dba\<lparr>aborted := True\<rparr>, db\<lparr>tx_engine := e\<rparr>)
              | (Throws ex, _) \<Rightarrow> Throws ex
              | (Fatal, _) \<Rightarrow> Fatal
              | (Hangs, _) \<Rightarrow> Hangs))"

definition delete_GraphDbAccessor :: "GraphDbAccessor \<times> GraphDb \<Rightarrow> GraphDb outcome" where
  "delete_GraphDbAccessor x =
     (case x of (dba, db) \<Rightarrow>
        if \<not> commited dba \<and> \<not> aborted dba
        then (case GraphDbAccessor_Abort (dba, db) of
                Returns (_, db') \<Rightarrow> Returns db'
              | Throws ex \<Rightarrow> Throws ex | Fatal \<Rightarrow> Fatal | Hangs \<Rightarrow> Hangs)
        else Returns db)"




section \<open>Durability: recovery\<close>






record wal_file =
  wal_path :: string
  wal_file_tx_id :: "transaction_id_t option"
  wal_opens :: bool
  deltas :: "StateDelta list"


record RecoveryData =
  snapshooter_tx_id :: transaction_id_t
  snapshooter_tx_snapshot :: "transaction_id_t list"
  indexes :: "(string \<times> string) list"



subsection \<open>RecoverSnapshot\<close>













subsection \<open>RecoverWal\<close>

text \<open>
  The type tag and the transaction id of a delta, and the index a \<^verbatim>\<open>BuildIndex\<close> delta names.
\<close>

datatype StateDelta_Type =
    TRANSACTION_BEGIN | TRANSACTION_COMMIT | TRANSACTION_ABORT | CREATE_VERTEX | CREATE_EDGE
  | SET_PROPERTY | ADD_LABEL | REMOVE_LABEL | REMOVE_VERTEX | REMOVE_EDGE | BUILD_INDEX

fun delta_type :: "StateDelta \<Rightarrow> StateDelta_Type" where
  "delta_type (TxBegin _) = TRANSACTION_BEGIN"
| "delta_type (TxCommit _) = TRANSACTION_COMMIT"
| "delta_type (TxAbort _) = TRANSACTION_ABORT"
| "delta_type (CreateVertex _ _) = CREATE_VERTEX"
| "delta_type (CreateEdge _ _ _ _ _) = CREATE_EDGE"
| "delta_type (SetProperty _ _ _ _) = SET_PROPERTY"
| "delta_type (AddLabel _ _ _) = ADD_LABEL"
| "delta_type (RemoveLabel _ _ _) = REMOVE_LABEL"
| "delta_type (RemoveVertexDelta _ _) = REMOVE_VERTEX"
| "delta_type (RemoveEdgeDelta _ _) = REMOVE_EDGE"
| "delta_type (BuildIndexDelta _ _ _) = BUILD_INDEX"

fun transaction_id :: "StateDelta \<Rightarrow> transaction_id_t" where
  "transaction_id (TxBegin t) = t"
| "transaction_id (TxCommit t) = t"
| "transaction_id (TxAbort t) = t"
| "transaction_id (CreateVertex t _) = t"
| "transaction_id (CreateEdge t _ _ _ _) = t"
| "transaction_id (SetProperty t _ _ _) = t"
| "transaction_id (AddLabel t _ _) = t"
| "transaction_id (RemoveLabel t _ _) = t"
| "transaction_id (RemoveVertexDelta t _) = t"
| "transaction_id (RemoveEdgeDelta t _) = t"
| "transaction_id (BuildIndexDelta t _ _) = t"

fun IndexName :: "StateDelta \<Rightarrow> string \<times> string" where
  "IndexName (BuildIndexDelta _ label property) = (label, property)"
| "IndexName _ = ([], [])"

text \<open>
  \<^verbatim>\<open>*std::min(tx_sn.begin(), tx_sn.end())\<close> compares the two iterators, not the elements:
  \<^verbatim>\<open>begin()\<close> is never after \<^verbatim>\<open>end()\<close>, so the result is the first element of the vector.
  The lambda \<^verbatim>\<open>should_skip\<close> captures \<^verbatim>\<open>first_to_recover\<close> by value.
\<close>

definition first_to_recover :: "RecoveryData \<Rightarrow> transaction_id_t" where
  "first_to_recover rd =
     (if snapshooter_tx_snapshot rd = [] then snapshooter_tx_id rd + 1
      else hd (snapshooter_tx_snapshot rd))"

definition should_skip :: "transaction_id_t \<Rightarrow> RecoveryData \<Rightarrow> transaction_id_t \<Rightarrow> bool" where
  "should_skip ftr rd tx_id \<longleftrightarrow>
     tx_id < ftr \<or> (tx_id < snapshooter_tx_id rd \<and> tx_id \<notin> set (snapshooter_tx_snapshot rd))"

type_synonym accessors_t = "(transaction_id_t \<times> GraphDbAccessor) list"

text \<open>
  Modelled from the spec: \<^verbatim>\<open>StateDelta::Apply\<close> is not among the sources; a data delta is
  applied to the accessor of its transaction, which is one entry of the log. The map
  \<^verbatim>\<open>accessors\<close> is a list of pairs in the order of insertion; at the end of \<^verbatim>\<open>RecoverWal\<close> its
  destructor deletes the accessors that are left.
\<close>

definition StateDelta_Apply :: "StateDelta \<Rightarrow> GraphDbAccessor \<Rightarrow> GraphDb \<Rightarrow> GraphDb outcome" where
  "StateDelta_Apply d dba db =
     (if commited dba \<or> aborted dba then Fatal
      else Returns (db\<lparr>record_ops := record_ops db @ [(accessor_transaction_id dba, Apply d)]\<rparr>))"

definition erase :: "transaction_id_t \<Rightarrow> accessors_t \<Rightarrow> accessors_t" where
  "erase i acc = filter (\<lambda>p. fst p \<noteq> i) acc"

fun replay_deltas ::
  "transaction_id_t \<Rightarrow> StateDelta list \<Rightarrow> accessors_t \<times> GraphDb \<times> RecoveryData \<Rightarrow>
     (accessors_t \<times> GraphDb \<times> RecoveryData) outcome" where
  "replay_deltas ftr [] st = Returns st"
| "replay_deltas ftr (delta # ds) (accessors, db, rd) =
     (if should_skip ftr rd (transaction_id delta) then replay_deltas ftr ds (accessors, db, rd)
      else
        (case delta_type delta of
           TRANSACTION_BEGIN \<Rightarrow>
             (case map_of accessors (transaction_id delta) of
                Some _ \<Rightarrow> Fatal
              | None \<Rightarrow>
                  (let (dba, db') = new_GraphDbAccessor db
                   in replay_deltas ftr ds (accessors @ [(transaction_id delta, dba)], db', rd)))
         | TRANSACTION_ABORT \<Rightarrow>
             (case map_of accessors (transaction_id delta) of
                None \<Rightarrow> Fatal
              | Some dba \<Rightarrow>
                  (case GraphDbAccessor_Abort (dba, db) of
                     Returns (_, db') \<Rightarrow>
                       replay_deltas ftr ds (erase (transaction_id delta) accessors, db', rd)
                   | Throws ex \<Rightarrow> Throws ex | Fatal \<Rightarrow> Fatal | Hangs \<Rightarrow> Hangs))
         | TRANSACTION_COMMIT \<Rightarrow>
             (case map_of accessors (transaction_id delta) of
                None \<Rightarrow> Fatal
              | Some dba \<Rightarrow>
                  (case GraphDbAccessor_Commit (dba, db) of
                     Returns (_, db') \<Rightarrow>
                       replay_deltas ftr ds (erase (transaction_id delta) accessors, db', rd)
                   | Throws ex \<Rightarrow> Throws ex | Fatal \<Rightarrow> Fatal | Hangs \<Rightarrow> Hangs))
         | BUILD_INDEX \<Rightarrow>
             replay_deltas ftr ds (accessors, db, rd\<lparr>indexes := indexes rd @ [IndexName delta]\<rparr>)
         | _ \<Rightarrow>
             (case map_of accessors (transaction_id delta) of
                None \<Rightarrow> Fatal
              | Some dba \<Rightarrow>
                  (case StateDelta_Apply delta dba db of
                     Returns db' \<Rightarrow> replay_deltas ftr ds (accessors, db', rd)
                   | Throws ex \<Rightarrow> Throws ex | Fatal \<Rightarrow> Fatal | Hangs \<Rightarrow> Hangs))))"

fun delete_accessors :: "accessors_t \<Rightarrow> GraphDb \<Rightarrow> GraphDb outcome" where
  "delete_accessors [] db = Returns db"
| "delete_accessors ((_, dba) # rest) db =
     (case delete_GraphDbAccessor (dba, db) of
        Returns db' \<Rightarrow> delete_accessors rest db'
      | Throws ex \<Rightarrow> Throws ex | Fatal \<Rightarrow> Fatal | Hangs \<Rightarrow> Hangs)"

fun recover_wal_files ::
  "transaction_id_t \<Rightarrow> wal_file list \<Rightarrow> accessors_t \<times> GraphDb \<times> RecoveryData \<Rightarrow>
     (bool \<times> accessors_t \<times> GraphDb \<times> RecoveryData) outcome" where
  "recover_wal_files ftr [] st = Returns (True, st)"
| "recover_wal_files ftr (wal_file # rest) st =
     (case wal_file_tx_id wal_file of
        None \<Rightarrow> recover_wal_files ftr rest st
      | Some i \<Rightarrow>
          if i < ftr then recover_wal_files ftr rest st
          else if \<not> wal_opens wal_file then Returns (False, st)
          else (case replay_deltas ftr (deltas wal_file) st of
                  Returns st' \<Rightarrow> recover_wal_files ftr rest st'
                | Throws ex \<Rightarrow> Throws ex | Fatal \<Rightarrow> Fatal | Hangs \<Rightarrow> Hangs))"

definition RecoverWal ::
  "wal_file list option \<Rightarrow> GraphDb \<Rightarrow> RecoveryData \<Rightarrow> (bool \<times> GraphDb \<times> RecoveryData) outcome" where
  "RecoverWal dir db rd =
     (case dir of
        None \<Rightarrow> Returns (True, db, rd)
      | Some files \<Rightarrow>
          (case recover_wal_files (first_to_recover rd) (sort_key wal_path files) ([], db, rd) of
             Returns (r_val, accessors, db', rd') \<Rightarrow>
               (case delete_accessors accessors db' of
                  Returns db'' \<Rightarrow> Returns (r_val, db'', rd')
                | Throws ex \<Rightarrow> Throws ex | Fatal \<Rightarrow> Fatal | Hangs \<Rightarrow> Hangs)
           | Throws ex \<Rightarrow> Throws ex | Fatal \<Rightarrow> Fatal | Hangs \<Rightarrow> Hangs))"

subsection \<open>Recover\<close>





subsection \<open>Example inputs\<close>

definition fresh_GraphDb :: GraphDb where
  "fresh_GraphDb =
     \<lparr>worker_id = 0, tx_engine = new_SingleNodeEngine None, vertex_generator = 0,
      edge_generator = 0, vertices = Map.empty, edges = Map.empty, record_ops = [],
      label_property_index = [], index_build_tx_in_progress = []\<rparr>"

definition unsorted_snapshot_data :: RecoveryData where
  "unsorted_snapshot_data = \<lparr>snapshooter_tx_id = 10, snapshooter_tx_snapshot = [5, 2], indexes = []\<rparr>"

definition wal_of_tx_2 :: wal_file where
  "wal_of_tx_2 =
     \<lparr>wal_path = ''wal_12'', wal_file_tx_id = Some 12, wal_opens = True,
      deltas = [TxBegin 2, CreateVertex 2 (Gid 0 7), TxCommit 2]\<rparr>"






subsection \<open>What a call leaves of the engine\<close>



subsection \<open>RecoverWal: which deltas are replayed\<close>

lemma first_to_recover_sorted:
  assumes "sorted (snapshooter_tx_snapshot rd)" "snapshooter_tx_snapshot rd \<noteq> []"
  shows "first_to_recover rd = Min (set (snapshooter_tx_snapshot rd))"
proof -
  obtain x xs where xs: "snapshooter_tx_snapshot rd = x # xs"
    using assms(2) by (cases "snapshooter_tx_snapshot rd") auto
  then have "\<forall>y \<in> set (x # xs). x \<le> y" using assms(1) by auto
  then have "Min (set (x # xs)) = x"
    by (intro Min_eqI) auto
  then show ?thesis by (simp add: first_to_recover_def xs)
qed

text \<open>
  Claim C1. On the recovery data of a snapshot whose transaction snapshot is stored as
  \<open>[5, 2]\<close>, \<^verbatim>\<open>first_to_recover\<close> is 5, the first element, and not the minimum 2. The
  deltas of transaction 2 are then skipped, although 2 is a member of the snapshot set and
  not below its minimum, so that by the claim they are replayed: \<^verbatim>\<open>RecoverWal\<close> leaves the
  database as it was.
\<close>

theorem RecoverWal_skips_member_of_unsorted_snapshot:
  "first_to_recover unsorted_snapshot_data = 5
   \<and> Min (set (snapshooter_tx_snapshot unsorted_snapshot_data)) = 2
   \<and> should_skip (first_to_recover unsorted_snapshot_data) unsorted_snapshot_data 2
   \<and> \<not> (2 < Min (set (snapshooter_tx_snapshot unsorted_snapshot_data))
        \<or> (2 < snapshooter_tx_id unsorted_snapshot_data
            \<and> 2 \<notin> set (snapshooter_tx_snapshot unsorted_snapshot_data)))
   \<and> RecoverWal (Some [wal_of_tx_2]) fresh_GraphDb unsorted_snapshot_data
       = Returns (True, fresh_GraphDb, unsorted_snapshot_data)"
  by (simp add: first_to_recover_def should_skip_def unsorted_snapshot_data_def wal_of_tx_2_def
      RecoverWal_def)

text \<open>
  The same snapshot set stored in ascending order: transaction 2 is replayed and committed.
\<close>

lemma RecoverWal_replays_member_of_sorted_snapshot:
  "\<exists>db'. RecoverWal (Some [wal_of_tx_2]) fresh_GraphDb
         (unsorted_snapshot_data\<lparr>snapshooter_tx_snapshot := [2, 5]\<rparr>)
       = Returns (True, db', unsorted_snapshot_data\<lparr>snapshooter_tx_snapshot := [2, 5]\<rparr>)
     \<and> record_ops db' = [(1, Apply (CreateVertex 2 (Gid 0 7)))]
     \<and> clog (tx_engine db') 1 = COMMITTED"
  by (simp add: first_to_recover_def should_skip_def unsorted_snapshot_data_def wal_of_tx_2_def
      RecoverWal_def fresh_GraphDb_def new_GraphDbAccessor_def Begin_def new_SingleNodeEngine_def
      new_Transaction_def emplace_def snapshot_insert_def wal_Emplace_def Let_def
      StateDelta_Apply_def accessor_transaction_id_def GraphDbAccessor_Commit_def Commit_def
      set_committed_def snapshot_remove_def erase_def)

subsection \<open>Recover: what it returns\<close>





subsection \<open>RecoverSnapshot: what the engine sees\<close>


































subsection \<open>Snapshot recovery is strict\<close>





subsection \<open>Recover does not return false\<close>





section \<open>Counting through the label-property index\<close>

text \<open>
  Modelled from the spec: the property value type and \<^verbatim>\<open>utils::Bound\<close> are not among the
  sources. A property value is \<open>Null\<close> or a value of a totally ordered type, which is a
  parameter here (the ordering of the stored values is the index's business); a bound is a
  value with the mark inclusive or exclusive.
\<close>

datatype 'v PropertyValue = Null | Value 'v

datatype BoundType = INCLUSIVE | EXCLUSIVE

record 'v Bound =
  bound_value :: "'v PropertyValue"
  bound_type :: BoundType

definition IsInclusive :: "'v Bound \<Rightarrow> bool" where
  "IsInclusive b \<longleftrightarrow> bound_type b = INCLUSIVE"

definition IsExclusive :: "'v Bound \<Rightarrow> bool" where
  "IsExclusive b \<longleftrightarrow> bound_type b = EXCLUSIVE"

text \<open>
  Modelled from the spec: \<^verbatim>\<open>LabelPropertyIndex\<close> is not among the sources. An index key is a
  label and a property; the index holds, for each key it has, the entries (value, gid) of
  its ordered container. \<^verbatim>\<open>Count\<close> is the number of entries, and \<^verbatim>\<open>PositionAndCount\<close> of a
  value is the number of entries ordered before it and the length of the run of entries
  equal to it. Both are \<^verbatim>\<open>int64_t\<close> in the source; no value \<^verbatim>\<open>VerticesCount\<close> computes from
  them lies outside the interval from minus the number of entries to the number of
  entries, so they are integers here.
\<close>

type_synonym Key = "string \<times> string"

type_synonym 'v LabelPropertyIndex = "Key \<rightharpoonup> ('v \<times> Gid) list"

definition IndexExists :: "'v LabelPropertyIndex \<Rightarrow> Key \<Rightarrow> bool" where
  "IndexExists idx key \<longleftrightarrow> idx key \<noteq> None"

definition index_entries :: "'v LabelPropertyIndex \<Rightarrow> Key \<Rightarrow> ('v \<times> Gid) list" where
  "index_entries idx key = (case idx key of None \<Rightarrow> [] | Some es \<Rightarrow> es)"

definition Count :: "'v LabelPropertyIndex \<Rightarrow> Key \<Rightarrow> int" where
  "Count idx key = int (length (index_entries idx key))"

definition PositionAndCount ::
  "('v::linorder) LabelPropertyIndex \<Rightarrow> Key \<Rightarrow> 'v PropertyValue \<Rightarrow> int \<times> int" where
  "PositionAndCount idx key v =
     (case v of
        Null \<Rightarrow> (0, 0)
      | Value x \<Rightarrow>
          (int (length (filter (\<lambda>e. fst e < x) (index_entries idx key))),
           int (length (filter (\<lambda>e. fst e = x) (index_entries idx key)))))"

text \<open>
  \<^verbatim>\<open>VerticesCount(label, property, lower, upper)\<close>. The two \<^verbatim>\<open>DCHECK\<close>s (the accessor is
  live, the index exists; a failure is \<open>Fatal\<close> as in a debug build) and the three
  \<^verbatim>\<open>CHECK\<close>s come first, in the order of the source.
\<close>

definition VerticesCount ::
  "('v::linorder) LabelPropertyIndex \<Rightarrow> GraphDbAccessor \<Rightarrow> Key \<Rightarrow>
     'v Bound option \<Rightarrow> 'v Bound option \<Rightarrow> int outcome" where
  "VerticesCount idx dba key lower upper =
     (if commited dba \<or> aborted dba then Fatal
      else if \<not> IndexExists idx key then Fatal
      else if lower = None \<and> upper = None then Fatal
      else if (case lower of Some l \<Rightarrow> bound_value l = Null | None \<Rightarrow> False) then Fatal
      else if (case upper of Some u \<Rightarrow> bound_value u = Null | None \<Rightarrow> False) then Fatal
      else
        (case upper of
           None \<Rightarrow>
             (let lower_pac = PositionAndCount idx key (bound_value (the lower));
                  size = Count idx key
              in Returns (max 0 (size - fst lower_pac
                                  - (if IsInclusive (the lower) then 0 else snd lower_pac))))
         | Some u \<Rightarrow>
             (case lower of
                None \<Rightarrow>
                  (let upper_pac = PositionAndCount idx key (bound_value u)
                   in Returns (if IsInclusive u then fst upper_pac + snd upper_pac
                               else fst upper_pac))
              | Some l \<Rightarrow>
                  (let lower_pac = PositionAndCount idx key (bound_value l);
                       upper_pac = PositionAndCount idx key (bound_value u);
                       result = fst upper_pac - fst lower_pac;
                       result = (if IsExclusive l then result - snd lower_pac else result);
                       result = (if IsInclusive u then result + snd upper_pac else result)
                   in Returns (max 0 result)))))"

text \<open>What the claim calls the entries inside the range.\<close>

definition above_lower :: "('v::linorder) Bound option \<Rightarrow> 'v \<Rightarrow> bool" where
  "above_lower lower x =
     (case lower of
        None \<Rightarrow> True
      | Some l \<Rightarrow> (case bound_value l of
                     Null \<Rightarrow> False
                   | Value v \<Rightarrow> if bound_type l = INCLUSIVE then v \<le> x else v < x))"

definition below_upper :: "('v::linorder) Bound option \<Rightarrow> 'v \<Rightarrow> bool" where
  "below_upper upper x =
     (case upper of
        None \<Rightarrow> True
      | Some u \<Rightarrow> (case bound_value u of
                     Null \<Rightarrow> False
                   | Value v \<Rightarrow> if bound_type u = INCLUSIVE then x \<le> v else x < v))"

definition entries_in_range ::
  "('v::linorder) LabelPropertyIndex \<Rightarrow> Key \<Rightarrow> 'v Bound option \<Rightarrow> 'v Bound option \<Rightarrow> ('v \<times> Gid) list" where
  "entries_in_range idx key lower upper =
     filter (\<lambda>e. above_lower lower (fst e) \<and> below_upper upper (fst e)) (index_entries idx key)"

lemma count_split:
  "int (length (filter A xs)) =
     int (length (filter (\<lambda>x. A x \<and> B x) xs)) + int (length (filter (\<lambda>x. A x \<and> \<not> B x) xs))"
  by (induction xs) auto

lemma count_difference:
  assumes "(\<forall>x. B x \<longrightarrow> A x) \<or> (\<forall>x. A x \<longrightarrow> B x)"
  shows "max 0 (int (length (filter A xs)) - int (length (filter B xs)))
       = int (length (filter (\<lambda>x. A x \<and> \<not> B x) xs))"
proof -
  have a: "int (length (filter A xs)) =
     int (length (filter (\<lambda>x. A x \<and> B x) xs)) + int (length (filter (\<lambda>x. A x \<and> \<not> B x) xs))"
    by (rule count_split)
  have b: "int (length (filter B xs)) =
     int (length (filter (\<lambda>x. B x \<and> A x) xs)) + int (length (filter (\<lambda>x. B x \<and> \<not> A x) xs))"
    by (rule count_split)
  have c: "filter (\<lambda>x. B x \<and> A x) xs = filter (\<lambda>x. A x \<and> B x) xs"
    by (rule filter_cong) auto
  from assms show ?thesis
  proof
    assume "\<forall>x. B x \<longrightarrow> A x"
    then have "filter (\<lambda>x. B x \<and> \<not> A x) xs = []" by (simp add: filter_empty_conv)
    then show ?thesis using a b c by simp
  next
    assume "\<forall>x. A x \<longrightarrow> B x"
    then have "filter (\<lambda>x. A x \<and> \<not> B x) xs = []" by (simp add: filter_empty_conv)
    then show ?thesis using a b c by simp
  qed
qed

lemma count_upto:
  "int (length (filter (\<lambda>e. fst e < (x::'v::linorder)) es)) + int (length (filter (\<lambda>e. fst e = x) es))
     = int (length (filter (\<lambda>e. fst e \<le> x) es))"
  by (induction es) auto

lemma count_all: "int (length es) = int (length (filter (\<lambda>e. True) es))"
  by simp

lemma down_sets_nested:
  fixes l u :: "'v::linorder"
  shows "(\<forall>e::'v \<times> 'a. fst e < l \<longrightarrow> fst e \<le> u) \<or> (\<forall>e::'v \<times> 'a. fst e \<le> u \<longrightarrow> fst e < l)"
    "(\<forall>e::'v \<times> 'a. fst e < l \<longrightarrow> fst e < u) \<or> (\<forall>e::'v \<times> 'a. fst e < u \<longrightarrow> fst e < l)"
    "(\<forall>e::'v \<times> 'a. fst e \<le> l \<longrightarrow> fst e \<le> u) \<or> (\<forall>e::'v \<times> 'a. fst e \<le> u \<longrightarrow> fst e \<le> l)"
    "(\<forall>e::'v \<times> 'a. fst e \<le> l \<longrightarrow> fst e < u) \<or> (\<forall>e::'v \<times> 'a. fst e < u \<longrightarrow> fst e \<le> l)"
  by (cases "l \<le> u"; cases "l = u"; force)+

lemma count_lower_only:
  fixes v :: "'v::linorder"
  shows "max 0 (int (length es) - int (length (filter (\<lambda>e. fst e < v) es)))
           = int (length (filter (\<lambda>e. v \<le> fst e) es))"
    "max 0 (int (length es) - int (length (filter (\<lambda>e. fst e < v) es))
              - int (length (filter (\<lambda>e. fst e = v) es)))
           = int (length (filter (\<lambda>e. v < fst e) es))"
proof -
  have "max 0 (int (length (filter (\<lambda>e. True) es)) - int (length (filter (\<lambda>e. fst e < v) es)))
      = int (length (filter (\<lambda>e. True \<and> \<not> fst e < v) es))"
    by (rule count_difference) simp
  then show "max 0 (int (length es) - int (length (filter (\<lambda>e. fst e < v) es)))
           = int (length (filter (\<lambda>e. v \<le> fst e) es))"
    by (simp add: not_less)
  have "max 0 (int (length (filter (\<lambda>e. True) es)) - int (length (filter (\<lambda>e. fst e \<le> v) es)))
      = int (length (filter (\<lambda>e. True \<and> \<not> fst e \<le> v) es))"
    by (rule count_difference) simp
  then show "max 0 (int (length es) - int (length (filter (\<lambda>e. fst e < v) es))
              - int (length (filter (\<lambda>e. fst e = v) es)))
           = int (length (filter (\<lambda>e. v < fst e) es))"
    using count_upto [of v es] by (simp add: not_le)
qed

lemma count_both:
  fixes l u :: "'v::linorder" and es :: "('v \<times> 'a) list"
  defines "lt x \<equiv> int (length (filter (\<lambda>e. fst e < x) es))"
    and "eq x \<equiv> int (length (filter (\<lambda>e. fst e = x) es))"
  shows "max 0 (lt u - lt l + eq u) = int (length (filter (\<lambda>e. l \<le> fst e \<and> fst e \<le> u) es))"
    "max 0 (lt u - lt l) = int (length (filter (\<lambda>e. l \<le> fst e \<and> fst e < u) es))"
    "max 0 (lt u - lt l - eq l + eq u) = int (length (filter (\<lambda>e. l < fst e \<and> fst e \<le> u) es))"
    "max 0 (lt u - lt l - eq l) = int (length (filter (\<lambda>e. l < fst e \<and> fst e < u) es))"
proof -
  have le: "lt x + eq x = int (length (filter (\<lambda>e. fst e \<le> x) es))" for x
    unfolding lt_def eq_def by (rule count_upto)
  have 1: "max 0 (int (length (filter (\<lambda>e. fst e \<le> u) es)) - lt l)
      = int (length (filter (\<lambda>e. fst e \<le> u \<and> \<not> fst e < l) es))"
    unfolding lt_def by (rule count_difference) (rule down_sets_nested)
  have 2: "max 0 (lt u - lt l) = int (length (filter (\<lambda>e. fst e < u \<and> \<not> fst e < l) es))"
    unfolding lt_def by (rule count_difference) (rule down_sets_nested)
  have 3: "max 0 (int (length (filter (\<lambda>e. fst e \<le> u) es)) - int (length (filter (\<lambda>e. fst e \<le> l) es)))
      = int (length (filter (\<lambda>e. fst e \<le> u \<and> \<not> fst e \<le> l) es))"
    by (rule count_difference) (rule down_sets_nested)
  have 4: "max 0 (lt u - int (length (filter (\<lambda>e. fst e \<le> l) es)))
      = int (length (filter (\<lambda>e. fst e < u \<and> \<not> fst e \<le> l) es))"
    unfolding lt_def by (rule count_difference) (rule down_sets_nested)
  have c: "(\<lambda>e::'v \<times> 'a. P e \<and> Q e) = (\<lambda>e. Q e \<and> P e)" for P Q by auto
  show "max 0 (lt u - lt l + eq u) = int (length (filter (\<lambda>e. l \<le> fst e \<and> fst e \<le> u) es))"
    using 1 le [of u] by (simp add: not_less c [of "\<lambda>e. l \<le> fst e"] algebra_simps)
  show "max 0 (lt u - lt l) = int (length (filter (\<lambda>e. l \<le> fst e \<and> fst e < u) es))"
    using 2 by (simp add: not_less c [of "\<lambda>e. l \<le> fst e"])
  show "max 0 (lt u - lt l - eq l + eq u) = int (length (filter (\<lambda>e. l < fst e \<and> fst e \<le> u) es))"
    using 3 le [of u] le [of l] by (simp add: not_le c [of "\<lambda>e. l < fst e"] algebra_simps)
  show "max 0 (lt u - lt l - eq l) = int (length (filter (\<lambda>e. l < fst e \<and> fst e < u) es))"
    using 4 le [of l] by (simp add: not_le c [of "\<lambda>e. l < fst e"] algebra_simps)
qed

text \<open>
  For the examples: an index on the ages 20, 30, 30, 30, 41, and an accessor that is neither
  committed nor aborted.
\<close>

definition index_of_ages :: "nat LabelPropertyIndex" where
  "index_of_ages =
     [(''Person'', ''age'') \<mapsto>
        [(20, Gid 0 4), (30, Gid 0 1), (30, Gid 0 2), (30, Gid 0 7), (41, Gid 0 3)]]"

definition live_accessor :: GraphDbAccessor where
  "live_accessor = \<lparr>transaction = \<lparr>tid = 1, cid = 1, snapshot = []\<rparr>, commited = False, aborted = False\<rparr>"

text \<open>
  Claim C6. For a live accessor and an existing index: with at least one bound and no Null
  bound, \<^verbatim>\<open>VerticesCount\<close> returns exactly the number of index entries inside the range,
  for every combination of absent, inclusive and exclusive bounds (also when the lower
  bound lies above the upper one: the count is 0). A Null value in a bound, or no bound at
  all, is \<open>Fatal\<close>. The result is computed as the claim says: upper bound only, position
  plus run if inclusive; lower bound only, total minus position minus run if exclusive,
  clamped at 0; both, upper position minus lower position minus lower run if exclusive
  plus upper run if inclusive, clamped at 0.
\<close>

theorem VerticesCount_counts_entries_in_range:
  fixes idx :: "('v::linorder) LabelPropertyIndex"
  assumes "\<not> commited dba" and "\<not> aborted dba" and "IndexExists idx key"
  shows "((lower \<noteq> None \<or> upper \<noteq> None)
            \<and> (\<forall>l. lower = Some l \<longrightarrow> bound_value l \<noteq> Null)
            \<and> (\<forall>u. upper = Some u \<longrightarrow> bound_value u \<noteq> Null) \<longrightarrow>
          VerticesCount idx dba key lower upper
            = Returns (int (length (entries_in_range idx key lower upper))))
       \<and> ((\<exists>l. lower = Some l \<and> bound_value l = Null) \<or> (\<exists>u. upper = Some u \<and> bound_value u = Null) \<longrightarrow>
          VerticesCount idx dba key lower upper = Fatal)
       \<and> VerticesCount idx dba key None None = Fatal
       \<and> (\<forall>u. bound_value u \<noteq> Null \<longrightarrow>
            VerticesCount idx dba key None (Some u)
              = Returns (fst (PositionAndCount idx key (bound_value u))
                         + (if IsInclusive u then snd (PositionAndCount idx key (bound_value u)) else 0)))
       \<and> (\<forall>l. bound_value l \<noteq> Null \<longrightarrow>
            VerticesCount idx dba key (Some l) None
              = Returns (max 0 (Count idx key - fst (PositionAndCount idx key (bound_value l))
                                - (if IsExclusive l then snd (PositionAndCount idx key (bound_value l)) else 0))))
       \<and> (\<forall>l u. bound_value l \<noteq> Null \<longrightarrow> bound_value u \<noteq> Null \<longrightarrow>
            VerticesCount idx dba key (Some l) (Some u)
              = Returns (max 0 (fst (PositionAndCount idx key (bound_value u))
                                - fst (PositionAndCount idx key (bound_value l))
                                - (if IsExclusive l then snd (PositionAndCount idx key (bound_value l)) else 0)
                                + (if IsInclusive u then snd (PositionAndCount idx key (bound_value u)) else 0))))"
proof -
  let ?es = "index_entries idx key"
  have upper_only: "VerticesCount idx dba key None (Some u)
      = Returns (int (length (entries_in_range idx key None (Some u))))"
    if nn: "bound_value u \<noteq> Null" for u
  proof -
    obtain v where v: "bound_value u = Value v" using nn by (cases "bound_value u") auto
    show ?thesis
      using assms v count_upto [of v ?es]
      by (cases "bound_type u")
        (simp_all add: VerticesCount_def PositionAndCount_def entries_in_range_def above_lower_def
          below_upper_def IsInclusive_def)
  qed
  have lower_only: "VerticesCount idx dba key (Some l) None
      = Returns (int (length (entries_in_range idx key (Some l) None)))"
    if nn: "bound_value l \<noteq> Null" for l
  proof -
    obtain v where v: "bound_value l = Value v" using nn by (cases "bound_value l") auto
    show ?thesis
      using assms v count_lower_only [of ?es v]
      by (cases "bound_type l")
        (simp_all add: VerticesCount_def PositionAndCount_def entries_in_range_def above_lower_def
          below_upper_def IsInclusive_def Count_def)
  qed
  have both: "VerticesCount idx dba key (Some l) (Some u)
      = Returns (int (length (entries_in_range idx key (Some l) (Some u))))"
    if nn: "bound_value l \<noteq> Null" "bound_value u \<noteq> Null" for l u
  proof -
    obtain v where v: "bound_value l = Value v" using nn by (cases "bound_value l") auto
    obtain w where w: "bound_value u = Value w" using nn by (cases "bound_value u") auto
    show ?thesis
      using assms v w count_both [of w ?es v]
      by (cases "bound_type l"; cases "bound_type u")
        (simp_all add: VerticesCount_def PositionAndCount_def entries_in_range_def above_lower_def
          below_upper_def IsInclusive_def IsExclusive_def Let_def)
  qed
  have range: "VerticesCount idx dba key lower upper
            = Returns (int (length (entries_in_range idx key lower upper)))"
    if "lower \<noteq> None \<or> upper \<noteq> None" "\<forall>l. lower = Some l \<longrightarrow> bound_value l \<noteq> Null"
      "\<forall>u. upper = Some u \<longrightarrow> bound_value u \<noteq> Null"
    using that upper_only lower_only both by (cases lower; cases upper) auto
  have null: "VerticesCount idx dba key lower upper = Fatal"
    if "(\<exists>l. lower = Some l \<and> bound_value l = Null) \<or> (\<exists>u. upper = Some u \<and> bound_value u = Null)"
    using that assms by (auto simp: VerticesCount_def)
  have none: "VerticesCount idx dba key None None = Fatal"
    using assms by (simp add: VerticesCount_def)
  have f1: "VerticesCount idx dba key None (Some u)
              = Returns (fst (PositionAndCount idx key (bound_value u))
                         + (if IsInclusive u then snd (PositionAndCount idx key (bound_value u)) else 0))"
    if "bound_value u \<noteq> Null" for u
    using that assms by (simp add: VerticesCount_def Let_def)
  have f2: "VerticesCount idx dba key (Some l) None
              = Returns (max 0 (Count idx key - fst (PositionAndCount idx key (bound_value l))
                                - (if IsExclusive l then snd (PositionAndCount idx key (bound_value l)) else 0)))"
    if "bound_value l \<noteq> Null" for l
    using that assms by (cases "bound_type l") (simp_all add: VerticesCount_def Let_def IsInclusive_def IsExclusive_def)
  have f3: "VerticesCount idx dba key (Some l) (Some u)
              = Returns (max 0 (fst (PositionAndCount idx key (bound_value u))
                                - fst (PositionAndCount idx key (bound_value l))
                                - (if IsExclusive l then snd (PositionAndCount idx key (bound_value l)) else 0)
                                + (if IsInclusive u then snd (PositionAndCount idx key (bound_value u)) else 0)))"
    if "bound_value l \<noteq> Null" "bound_value u \<noteq> Null" for l u
    using that assms by (simp add: VerticesCount_def Let_def)
  show ?thesis
    using range null none f1 f2 f3 by blast
qed

text \<open>
  Ages 20, 30, 30, 30, 41: one entry in (30, 41], four in [30, ..), none from 41 down to 30.
\<close>

theorem VerticesCount_counts_entries_in_range_witness:
  "VerticesCount index_of_ages live_accessor (''Person'', ''age'')
     (Some \<lparr>bound_value = Value 30, bound_type = EXCLUSIVE\<rparr>)
     (Some \<lparr>bound_value = Value 41, bound_type = INCLUSIVE\<rparr>) = Returns 1
   \<and> VerticesCount index_of_ages live_accessor (''Person'', ''age'')
     (Some \<lparr>bound_value = Value 30, bound_type = INCLUSIVE\<rparr>) None = Returns 4
   \<and> VerticesCount index_of_ages live_accessor (''Person'', ''age'')
     (Some \<lparr>bound_value = Value 41, bound_type = INCLUSIVE\<rparr>)
     (Some \<lparr>bound_value = Value 30, bound_type = EXCLUSIVE\<rparr>) = Returns 0
   \<and> VerticesCount index_of_ages live_accessor (''Person'', ''age'')
     (Some \<lparr>bound_value = Null, bound_type = INCLUSIVE\<rparr>) None = Fatal"
proof -
  have live: "\<not> commited live_accessor" "\<not> aborted live_accessor"
    "IndexExists index_of_ages (''Person'', ''age'')"
    by (simp_all add: live_accessor_def IndexExists_def index_of_ages_def)
  note t = VerticesCount_counts_entries_in_range [OF live]
  have "VerticesCount index_of_ages live_accessor (''Person'', ''age'')
     (Some \<lparr>bound_value = Value 30, bound_type = EXCLUSIVE\<rparr>)
     (Some \<lparr>bound_value = Value 41, bound_type = INCLUSIVE\<rparr>) = Returns 1"
    using t [of "Some \<lparr>bound_value = Value 30, bound_type = EXCLUSIVE\<rparr>"
                "Some \<lparr>bound_value = Value 41, bound_type = INCLUSIVE\<rparr>"]
    by (simp add: entries_in_range_def index_entries_def index_of_ages_def above_lower_def below_upper_def)
  moreover have "VerticesCount index_of_ages live_accessor (''Person'', ''age'')
     (Some \<lparr>bound_value = Value 30, bound_type = INCLUSIVE\<rparr>) None = Returns 4"
    using t [of "Some \<lparr>bound_value = Value 30, bound_type = INCLUSIVE\<rparr>" None]
    by (simp add: entries_in_range_def index_entries_def index_of_ages_def above_lower_def below_upper_def)
  moreover have "VerticesCount index_of_ages live_accessor (''Person'', ''age'')
     (Some \<lparr>bound_value = Value 41, bound_type = INCLUSIVE\<rparr>)
     (Some \<lparr>bound_value = Value 30, bound_type = EXCLUSIVE\<rparr>) = Returns 0"
    using t [of "Some \<lparr>bound_value = Value 41, bound_type = INCLUSIVE\<rparr>"
                "Some \<lparr>bound_value = Value 30, bound_type = EXCLUSIVE\<rparr>"]
    by (simp add: entries_in_range_def index_entries_def index_of_ages_def above_lower_def below_upper_def)
  moreover have "VerticesCount index_of_ages live_accessor (''Person'', ''age'')
     (Some \<lparr>bound_value = Null, bound_type = INCLUSIVE\<rparr>) None = Fatal"
    using t [of "Some \<lparr>bound_value = Null, bound_type = INCLUSIVE\<rparr>" None]
    by simp
  ultimately show ?thesis by blast
qed

section \<open>Removing a vertex\<close>

text \<open>
  Modelled from the spec: the record classes (\<^verbatim>\<open>mvcc/record.hpp\<close>, \<^verbatim>\<open>storage/vertex.hpp\<close>) and
  the record accessor are not among the sources. A version of a vertex has its lists of
  outgoing and incoming edges and the four stamps of the version list (the expiring
  transaction id is 0 while the version is not expired); a version is expired by a
  transaction when its expiring stamp is the transaction's id. A vertex accessor is local or
  not, addresses a version list by its gid, and \<^verbatim>\<open>current()\<close> is the version its
  \<^verbatim>\<open>current_\<close> points at; the degrees are the lengths of that version's edge lists.
\<close>

record Vertex =
  vertex_out :: "Gid list"
  vertex_in :: "Gid list"
  tx_cre :: transaction_id_t
  cmd_cre :: command_id_t
  tx_exp :: transaction_id_t
  cmd_exp :: command_id_t

definition is_expired_by :: "Vertex \<Rightarrow> Transaction \<Rightarrow> bool" where
  "is_expired_by v t \<longleftrightarrow> tx_exp v = tid t"

record VertexAccessor =
  is_local :: bool
  address :: Gid
  current :: Vertex

definition out_degree :: "VertexAccessor \<Rightarrow> nat" where
  "out_degree va = length (vertex_out (current va))"

definition in_degree :: "VertexAccessor \<Rightarrow> nat" where
  "in_degree va = length (vertex_in (current va))"

text \<open>
  \<^verbatim>\<open>RecordAccessor::SwitchNew\<close> and \<^verbatim>\<open>VersionList::remove\<close> are not among the sources:
  they are parameters of \<^verbatim>\<open>RemoveVertex\<close>. \<^verbatim>\<open>SwitchNew\<close> makes the accessor point at the
  newest version its transaction has; \<^verbatim>\<open>remove\<close> expires the given version for the
  transaction, or fails.
\<close>

type_synonym SwitchNew_t = "GraphDb \<Rightarrow> GraphDbAccessor \<Rightarrow> VertexAccessor \<Rightarrow> VertexAccessor"

type_synonym remove_t = "GraphDb \<Rightarrow> Gid \<Rightarrow> Vertex \<Rightarrow> Transaction \<Rightarrow> GraphDb outcome"

definition RemoveVertex ::
  "SwitchNew_t \<Rightarrow> remove_t \<Rightarrow> GraphDb \<Rightarrow> GraphDbAccessor \<Rightarrow> VertexAccessor \<Rightarrow>
     (bool \<times> GraphDb \<times> VertexAccessor) outcome" where
  "RemoveVertex SwitchNew remove db dba vertex_accessor =
     (if commited dba \<or> aborted dba then Fatal
      else if \<not> is_local vertex_accessor then Returns (False, db, vertex_accessor)
      else
        (let va = SwitchNew db dba vertex_accessor
         in if is_expired_by (current va) (transaction dba) then Returns (True, db, va)
            else if out_degree va > 0 \<or> in_degree va > 0 then Returns (False, db, va)
            else
              (case remove (db_wal_Emplace (RemoveVertexDelta (accessor_transaction_id dba) (address va)) db)
                      (address va) (current va) (transaction dba) of
                 Returns db' \<Rightarrow> Returns (True, db', va)
               | Throws ex \<Rightarrow> Throws ex | Fatal \<Rightarrow> Fatal | Hangs \<Rightarrow> Hangs)))"

text \<open>
  For the examples: an accessor that already points at the newest version, a removal that
  meets no conflict, a vertex that the transaction 2 has already expired with its edge
  list still in place (as \<^verbatim>\<open>DetachRemoveVertex\<close> leaves it: it removes an incident edge from
  the other endpoint's list only), and the same vertex not expired.
\<close>

definition SwitchNew_in_place :: SwitchNew_t where
  "SwitchNew_in_place db dba va = va"

definition remove_without_conflict :: remove_t where
  "remove_without_conflict db g v t = Returns db"

definition detached_vertex :: VertexAccessor where
  "detached_vertex =
     \<lparr>is_local = True, address = Gid 0 1,
      current = \<lparr>vertex_out = [Gid 0 9], vertex_in = [], tx_cre = 1, cmd_cre = 1, tx_exp = 2, cmd_exp = 1\<rparr>\<rparr>"

definition connected_vertex :: VertexAccessor where
  "connected_vertex =
     \<lparr>is_local = True, address = Gid 0 1,
      current = \<lparr>vertex_out = [Gid 0 9], vertex_in = [], tx_cre = 1, cmd_cre = 1, tx_exp = 0, cmd_exp = 0\<rparr>\<rparr>"

definition accessor_of_tx_2 :: GraphDbAccessor where
  "accessor_of_tx_2 = \<lparr>transaction = \<lparr>tid = 2, cid = 1, snapshot = []\<rparr>, commited = False, aborted = False\<rparr>"

text \<open>
  Claim C7, amended. For every local vertex whose newest version is not already expired
  by the calling transaction and has an outgoing or incoming edge, \<^verbatim>\<open>RemoveVertex\<close> returns
  false and the database is the one it was given: no version is expired and no WAL delta is
  written.
\<close>

theorem RemoveVertex_refuses_vertex_with_edges:
  assumes "\<not> commited dba" and "\<not> aborted dba" and "is_local va"
    and "0 < out_degree (SwitchNew db dba va) \<or> 0 < in_degree (SwitchNew db dba va)"
    and "\<not> is_expired_by (current (SwitchNew db dba va)) (transaction dba)"
  shows "RemoveVertex SwitchNew remove db dba va = Returns (False, db, SwitchNew db dba va)"
  using assms by (simp add: RemoveVertex_def Let_def)

text \<open>
  A vertex with one outgoing edge that no transaction has expired.
\<close>

theorem RemoveVertex_refuses_vertex_with_edges_witness:
  "RemoveVertex SwitchNew_in_place remove_without_conflict fresh_GraphDb accessor_of_tx_2 connected_vertex
     = Returns (False, fresh_GraphDb, connected_vertex)"
  using RemoveVertex_refuses_vertex_with_edges
    [of accessor_of_tx_2 connected_vertex SwitchNew_in_place fresh_GraphDb remove_without_conflict]
  by (simp add: accessor_of_tx_2_def connected_vertex_def SwitchNew_in_place_def out_degree_def
      in_degree_def is_expired_by_def)

text \<open>
  Claim C7 as stated fails for a vertex the calling transaction has already expired: the
  check for that comes first, and \<^verbatim>\<open>RemoveVertex\<close> returns true although the newest version
  has an outgoing edge.
\<close>

theorem RemoveVertex_true_for_expired_vertex_with_edges:
  "is_local detached_vertex
   \<and> 0 < out_degree (SwitchNew_in_place fresh_GraphDb accessor_of_tx_2 detached_vertex)
   \<and> RemoveVertex SwitchNew_in_place remove_without_conflict fresh_GraphDb accessor_of_tx_2 detached_vertex
       = Returns (True, fresh_GraphDb, detached_vertex)"
  by (simp add: RemoveVertex_def accessor_of_tx_2_def detached_vertex_def SwitchNew_in_place_def
      out_degree_def in_degree_def is_expired_by_def)

text \<open>
  Claim C9. If the newest version of a local vertex is already expired by the calling
  transaction, \<^verbatim>\<open>RemoveVertex\<close> returns true and the database is the one it was given: no
  second expiration, no further WAL delta.
\<close>

theorem RemoveVertex_idempotent_in_transaction:
  assumes "\<not> commited dba" and "\<not> aborted dba" and "is_local va"
    and "is_expired_by (current (SwitchNew db dba va)) (transaction dba)"
  shows "RemoveVertex SwitchNew remove db dba va = Returns (True, db, SwitchNew db dba va)"
  using assms by (simp add: RemoveVertex_def Let_def)

text \<open>
  A vertex without edges that the transaction 2 has expired, removed again by it.
\<close>

theorem RemoveVertex_idempotent_in_transaction_witness:
  "RemoveVertex SwitchNew_in_place remove_without_conflict fresh_GraphDb accessor_of_tx_2
     (detached_vertex\<lparr>current := (current detached_vertex)\<lparr>vertex_out := []\<rparr>\<rparr>)
     = Returns (True, fresh_GraphDb, detached_vertex\<lparr>current := (current detached_vertex)\<lparr>vertex_out := []\<rparr>\<rparr>)"
  using RemoveVertex_idempotent_in_transaction
    [of accessor_of_tx_2 "detached_vertex\<lparr>current := (current detached_vertex)\<lparr>vertex_out := []\<rparr>\<rparr>"
        SwitchNew_in_place fresh_GraphDb remove_without_conflict]
  by (simp add: accessor_of_tx_2_def detached_vertex_def SwitchNew_in_place_def is_expired_by_def)

section \<open>NameIdMapper\<close>

text \<open>
  The members of \<^verbatim>\<open>NameIdMapper\<close>: the 64-bit counter and the two skip lists, each a map
  from its key. \<^verbatim>\<open>utils::SkipList\<close> is not among the sources; as the comment in
  \<^verbatim>\<open>NameToId\<close> says, \<^verbatim>\<open>insert\<close> of a key that exists leaves the list as it is and returns the
  existing item.
\<close>

record NameIdMapper =
  mapper_counter :: "64 word"
  name_to_id :: "string \<rightharpoonup> 64 word"
  id_to_name :: "64 word \<rightharpoonup> string"

definition new_NameIdMapper :: NameIdMapper where
  "new_NameIdMapper = \<lparr>mapper_counter = 0, name_to_id = Map.empty, id_to_name = Map.empty\<rparr>"

definition skiplist_insert :: "'k \<Rightarrow> 'v \<Rightarrow> ('k \<rightharpoonup> 'v) \<Rightarrow> 'v \<times> ('k \<rightharpoonup> 'v)" where
  "skiplist_insert k v m = (case m k of None \<Rightarrow> (v, m(k \<mapsto> v)) | Some old \<Rightarrow> (old, m))"

definition NameToId :: "NameIdMapper \<Rightarrow> string \<Rightarrow> 64 word \<times> NameIdMapper" where
  "NameToId m name =
     (let (i, m1) =
            (case name_to_id m name of
               None \<Rightarrow>
                 (let new_id = mapper_counter m;
                      (i, n2i) = skiplist_insert name new_id (name_to_id m)
                  in (i, m\<lparr>mapper_counter := mapper_counter m + 1, name_to_id := n2i\<rparr>))
             | Some found \<Rightarrow> (found, m))
      in (i, m1\<lparr>id_to_name := snd (skiplist_insert i name (id_to_name m1))\<rparr>))"

definition IdToName :: "NameIdMapper \<Rightarrow> 64 word \<Rightarrow> string outcome" where
  "IdToName m i = (case id_to_name m i of None \<Rightarrow> Fatal | Some name \<Rightarrow> Returns name)"

text \<open>
  A sequence of \<^verbatim>\<open>NameToId\<close> calls, and what holds of the mapper while the counter has not
  wrapped: each name's id leads back to the name, and every id in use is below the counter.
\<close>

fun map_names :: "NameIdMapper \<Rightarrow> string list \<Rightarrow> NameIdMapper" where
  "map_names m [] = m"
| "map_names m (name # names) = map_names (snd (NameToId m name)) names"

definition mapper_inv :: "NameIdMapper \<Rightarrow> bool" where
  "mapper_inv m \<longleftrightarrow>
     (\<forall>name i. name_to_id m name = Some i \<longrightarrow> id_to_name m i = Some name)
     \<and> (\<forall>i name. id_to_name m i = Some name \<longrightarrow> i < mapper_counter m)"

definition round_trip :: "NameIdMapper \<Rightarrow> bool" where
  "round_trip m \<longleftrightarrow> (\<forall>name i. name_to_id m name = Some i \<longrightarrow> id_to_name m i = Some name)"

text \<open>
  Nothing is ever deleted from the two skip lists: every name the mapper was given stays
  in \<^verbatim>\<open>name_to_id_\<close>, each in a node of its own, for the life of the process. While the
  counter has not wrapped it is the number of names held.
\<close>

definition counts_names :: "NameIdMapper \<Rightarrow> bool" where
  "counts_names m \<longleftrightarrow>
     mapper_inv m \<and> finite (dom (name_to_id m)) \<and> unat (mapper_counter m) = card (dom (name_to_id m))"

lemma NameToId_known:
  "name_to_id m name = Some i \<Longrightarrow> round_trip m \<Longrightarrow> NameToId m name = (i, m)"
  by (simp add: NameToId_def skiplist_insert_def round_trip_def)

lemma NameToId_new:
  assumes "name_to_id m name = None"
  shows "NameToId m name =
           (mapper_counter m,
            m\<lparr>mapper_counter := mapper_counter m + 1,
              name_to_id := (name_to_id m)(name \<mapsto> mapper_counter m),
              id_to_name := (case id_to_name m (mapper_counter m) of
                               None \<Rightarrow> (id_to_name m)(mapper_counter m \<mapsto> name)
                             | Some _ \<Rightarrow> id_to_name m)\<rparr>)"
  using assms by (simp add: NameToId_def skiplist_insert_def Let_def split: option.splits)

lemma NameToId_keeps_names:
  "name_to_id m name = Some i \<Longrightarrow> name_to_id (snd (NameToId m other)) name = Some i"
  by (cases "name_to_id m other")
    (auto simp: NameToId_def skiplist_insert_def Let_def split: option.splits)

lemma NameToId_keeps_ids:
  "id_to_name m i = Some name \<Longrightarrow> id_to_name (snd (NameToId m other)) i = Some name"
  by (cases "name_to_id m other")
    (auto simp: NameToId_def skiplist_insert_def Let_def split: option.splits)

lemma map_names_keeps_names:
  "name_to_id m name = Some i \<Longrightarrow> name_to_id (map_names m names) name = Some i"
  by (induction names arbitrary: m) (auto simp: NameToId_keeps_names)

lemma map_names_keeps_ids:
  "id_to_name m i = Some name \<Longrightarrow> id_to_name (map_names m names) i = Some name"
  by (induction names arbitrary: m) (auto simp: NameToId_keeps_ids)

lemma NameToId_registers:
  "name_to_id (snd (NameToId m name)) name = Some (fst (NameToId m name))"
  by (cases "name_to_id m name")
    (auto simp: NameToId_def skiplist_insert_def Let_def split: option.splits)

lemma NameToId_again:
  "fst (NameToId (map_names (snd (NameToId m name)) names) name) = fst (NameToId m name)"
proof -
  have "name_to_id (map_names (snd (NameToId m name)) names) name = Some (fst (NameToId m name))"
    by (rule map_names_keeps_names) (rule NameToId_registers)
  then show ?thesis
    by (simp add: NameToId_def skiplist_insert_def Let_def split: option.splits prod.splits)
qed

lemma mapper_inv_NameToId:
  assumes "mapper_inv m" and "mapper_counter m \<noteq> - 1"
  shows "mapper_inv (snd (NameToId m name))"
proof (cases "name_to_id m name")
  case None
  have fresh: "id_to_name m (mapper_counter m) = None"
    using assms(1) by (fastforce simp: mapper_inv_def)
  have lt: "i < mapper_counter m + 1" if "i \<le> mapper_counter m" for i
    using that assms(2) by (rule word_less_succ [rotated])
  show ?thesis
    using assms(1) None fresh lt
    unfolding NameToId_new [OF None] mapper_inv_def
    by (auto simp: order_less_imp_le)
next
  case (Some i)
  then show ?thesis using assms(1)
    by (simp add: NameToId_known mapper_inv_def round_trip_def)
qed

lemma round_trip_NameToId:
  assumes "mapper_inv m"
  shows "round_trip (snd (NameToId m name))"
    and "id_to_name (snd (NameToId m name)) (fst (NameToId m name)) = Some name"
proof -
  have rt: "round_trip m" using assms by (simp add: mapper_inv_def round_trip_def)
  show "round_trip (snd (NameToId m name))"
  proof (cases "name_to_id m name")
    case None
    have fresh: "id_to_name m (mapper_counter m) = None"
      using assms by (fastforce simp: mapper_inv_def)
    show ?thesis
      using assms None fresh
      unfolding NameToId_new [OF None] mapper_inv_def round_trip_def
      by auto
  next
    case (Some i)
    then show ?thesis using rt by (simp add: NameToId_known)
  qed
  then show "id_to_name (snd (NameToId m name)) (fst (NameToId m name)) = Some name"
    using NameToId_registers [of m name] by (simp add: round_trip_def)
qed

lemma mapper_counter_NameToId:
  "mapper_counter (snd (NameToId m name)) = mapper_counter m
   \<or> mapper_counter (snd (NameToId m name)) = mapper_counter m + 1"
  by (cases "name_to_id m name")
    (auto simp: NameToId_def skiplist_insert_def Let_def split: option.splits)

lemma mapper_inv_map_names:
  assumes "mapper_inv m" and "unat (mapper_counter m) + length names < 2 ^ 64"
  shows "mapper_inv (map_names m names)
       \<and> unat (mapper_counter (map_names m names)) \<le> unat (mapper_counter m) + length names"
  using assms
proof (induction names arbitrary: m)
  case Nil
  then show ?case by simp
next
  case (Cons name names)
  let ?m = "snd (NameToId m name)"
  have nw: "mapper_counter m \<noteq> - 1"
    using Cons.prems(2) unat_max64 by auto
  have inv: "mapper_inv ?m" by (rule mapper_inv_NameToId [OF Cons.prems(1) nw])
  have c: "unat (mapper_counter ?m) \<le> unat (mapper_counter m) + 1"
    using mapper_counter_NameToId [of m name] word_succ_no_wrap [OF nw] by auto
  then have "unat (mapper_counter ?m) + length names < 2 ^ 64"
    using Cons.prems(2) by simp
  from Cons.IH [OF inv this] c show ?case by simp
qed

text \<open>
  For the counterexample: the names of length 0, 1, 2, ... in this order.
\<close>

definition name_of_length :: "nat \<Rightarrow> string" where
  "name_of_length k = replicate k CHR ''a''"

definition many_names :: "nat \<Rightarrow> string list" where
  "many_names n = map name_of_length [0..<n]"

lemma mapper_inv_new: "mapper_inv new_NameIdMapper"
  by (simp add: mapper_inv_def new_NameIdMapper_def)

lemma map_names_append: "map_names m (xs @ ys) = map_names (map_names m xs) ys"
  by (induction xs arbitrary: m) auto

lemma name_of_length_inj: "name_of_length j = name_of_length k \<Longrightarrow> j = k"
  by (metis length_replicate name_of_length_def)

lemma word_of_nat_inj64:
  "j < 2 ^ 64 \<Longrightarrow> k < 2 ^ 64 \<Longrightarrow> (word_of_nat j :: 64 word) = word_of_nat k \<Longrightarrow> j = k"
proof -
  assume a: "j < 2 ^ 64" "k < 2 ^ 64" "(word_of_nat j :: 64 word) = word_of_nat k"
  have j: "unat (word_of_nat j :: 64 word) = j"
    by (rule of_nat_inverse [OF refl]) (use a(1) in simp)
  have k: "unat (word_of_nat k :: 64 word) = k"
    by (rule of_nat_inverse [OF refl]) (use a(2) in simp)
  from a(3) have "unat (word_of_nat j :: 64 word) = unat (word_of_nat k :: 64 word)"
    by (rule arg_cong)
  then show "j = k" unfolding j k .
qed

lemma many_names_state:
  assumes "n \<le> 2 ^ 64"
  shows "mapper_counter (map_names new_NameIdMapper (many_names n)) = of_nat n
       \<and> dom (name_to_id (map_names new_NameIdMapper (many_names n))) = name_of_length ` {..<n}
       \<and> dom (id_to_name (map_names new_NameIdMapper (many_names n))) = of_nat ` {..<n}
       \<and> (0 < n \<longrightarrow> id_to_name (map_names new_NameIdMapper (many_names n)) 0 = Some [])"
  using assms
proof (induction n)
  case 0
  then show ?case by (simp add: many_names_def new_NameIdMapper_def)
next
  case (Suc n)
  let ?m = "map_names new_NameIdMapper (many_names n)"
  have IH: "mapper_counter ?m = of_nat n" "dom (name_to_id ?m) = name_of_length ` {..<n}"
    "dom (id_to_name ?m) = of_nat ` {..<n}" "0 < n \<longrightarrow> id_to_name ?m 0 = Some []"
    using Suc by simp_all
  have step: "map_names new_NameIdMapper (many_names (Suc n)) = snd (NameToId ?m (name_of_length n))"
    by (simp add: many_names_def map_names_append)
  have "name_of_length n \<notin> name_of_length ` {..<n}"
    using name_of_length_inj by fastforce
  then have new: "name_to_id ?m (name_of_length n) = None"
    using IH(2) by (metis domIff)
  have "(word_of_nat n :: 64 word) \<notin> of_nat ` {..<n}"
  proof
    assume "(word_of_nat n :: 64 word) \<in> of_nat ` {..<n}"
    then obtain k where "k < n" "(word_of_nat n :: 64 word) = word_of_nat k" by auto
    then show False using word_of_nat_inj64 [of n k] Suc.prems by simp
  qed
  then have free: "id_to_name ?m (of_nat n) = None"
    using IH(3) by (metis domIff)
  have nz: "(word_of_nat n :: 64 word) \<noteq> 0" if "0 < n"
    using word_of_nat_inj64 [of n 0] that Suc.prems by auto
  have zero: "((id_to_name ?m)(of_nat n \<mapsto> name_of_length n)) 0 = Some []"
  proof (cases "n = 0")
    case True
    then show ?thesis by (simp add: name_of_length_def)
  next
    case False
    then show ?thesis using nz IH(4) by simp
  qed
  let ?m' = "map_names new_NameIdMapper (many_names (Suc n))"
  have m': "mapper_counter ?m' = of_nat (Suc n)"
    "name_to_id ?m' = (name_to_id ?m)(name_of_length n \<mapsto> of_nat n)"
    "id_to_name ?m' = (id_to_name ?m)(of_nat n \<mapsto> name_of_length n)"
    by (simp_all add: step NameToId_new [OF new] IH(1) free)
  have "dom (name_to_id ?m') = name_of_length ` {..<Suc n}"
    unfolding m'(2) dom_fun_upd by (simp add: IH(2) lessThan_Suc)
  moreover have "dom (id_to_name ?m') = of_nat ` {..<Suc n}"
    unfolding m'(3) dom_fun_upd by (simp add: IH(3) lessThan_Suc)
  moreover have "id_to_name ?m' 0 = Some []"
    unfolding m'(3) by (rule zero)
  ultimately show ?case using m'(1) by blast
qed

text \<open>
  The bound is the one the counter needs. A mapper holding \<open>2^64\<close> names, which no
  process with 64-bit addresses can hold, would have its counter at 0 again: the next new
  name would get the id 0, which \<^verbatim>\<open>id_to_name_\<close> maps to the first name.
\<close>

lemma NameToId_round_trip_fails_after_wrap:
  "IdToName (snd (NameToId (map_names new_NameIdMapper (many_names (2 ^ 64))) (name_of_length (2 ^ 64))))
            (fst (NameToId (map_names new_NameIdMapper (many_names (2 ^ 64))) (name_of_length (2 ^ 64))))
     = Returns []
   \<and> name_of_length (2 ^ 64) \<noteq> []"
proof -
  let ?m = "map_names new_NameIdMapper (many_names (2 ^ 64))"
  have z: "(word_of_nat (2 ^ 64) :: 64 word) = 0" by simp
  have s: "mapper_counter ?m = 0" "dom (name_to_id ?m) = name_of_length ` {..<2 ^ 64}"
    "id_to_name ?m 0 = Some []"
    using many_names_state [of "2 ^ 64"] z by simp_all
  have "name_of_length (2 ^ 64) \<notin> name_of_length ` {..<2 ^ 64}"
    using name_of_length_inj by fastforce
  then have new: "name_to_id ?m (name_of_length (2 ^ 64)) = None"
    using s(2) by (metis domIff)
  have "name_of_length (2 ^ 64) \<noteq> []"
    by (simp add: name_of_length_def)
  then show ?thesis
    unfolding NameToId_new [OF new] s(1)
    by (simp add: IdToName_def s(3) del: power_numeral)
qed

lemma dom_NameToId:
  "dom (name_to_id (snd (NameToId m name))) = insert name (dom (name_to_id m))"
  by (cases "name_to_id m name")
    (auto simp: NameToId_def skiplist_insert_def Let_def split: option.splits if_splits)

lemma dom_map_names:
  "dom (name_to_id (map_names m names)) = dom (name_to_id m) \<union> set names"
  by (induction names arbitrary: m) (auto simp: dom_NameToId)

lemma counts_names_new: "counts_names new_NameIdMapper"
  by (simp add: counts_names_def mapper_inv_new) (simp add: new_NameIdMapper_def)

lemma counts_names_NameToId:
  assumes c: "counts_names m" and room: "card (insert name (dom (name_to_id m))) < 2 ^ 64"
  shows "counts_names (snd (NameToId m name))"
proof (cases "name_to_id m name")
  case (Some i)
  have "round_trip m" using c by (simp add: counts_names_def mapper_inv_def round_trip_def)
  then have "snd (NameToId m name) = m" using Some by (simp add: NameToId_known)
  then show ?thesis using c by simp
next
  case None
  have fin: "finite (dom (name_to_id m))" and inv: "mapper_inv m"
    and u: "unat (mapper_counter m) = card (dom (name_to_id m))"
    using c by (simp_all add: counts_names_def)
  have new: "name \<notin> dom (name_to_id m)" using None by (simp add: domIff)
  then have "card (insert name (dom (name_to_id m))) = Suc (card (dom (name_to_id m)))"
    using fin by simp
  then have lt: "Suc (unat (mapper_counter m)) < 2 ^ 64" using room u by simp
  then have nw: "mapper_counter m \<noteq> - 1" using unat_max64 by auto
  have "mapper_counter (snd (NameToId m name)) = mapper_counter m + 1"
    unfolding NameToId_new [OF None] by simp
  then have "unat (mapper_counter (snd (NameToId m name))) = Suc (unat (mapper_counter m))"
    using word_succ_no_wrap [OF nw] by simp
  then show ?thesis
    using mapper_inv_NameToId [OF inv nw, of name] fin u new
    by (simp add: counts_names_def dom_NameToId)
qed

lemma counts_names_map_names:
  assumes "counts_names m" and "card (dom (name_to_id m) \<union> set names) < 2 ^ 64"
  shows "counts_names (map_names m names)"
  using assms
proof (induction names arbitrary: m)
  case Nil
  then show ?case by simp
next
  case (Cons name names)
  have fin: "finite (dom (name_to_id m) \<union> set (name # names))"
    using Cons.prems(1) by (simp add: counts_names_def)
  have "card (insert name (dom (name_to_id m))) \<le> card (dom (name_to_id m) \<union> set (name # names))"
    by (rule card_mono [OF fin]) auto
  then have "counts_names (snd (NameToId m name))"
    using Cons.prems by (intro counts_names_NameToId) auto
  moreover have "dom (name_to_id (snd (NameToId m name))) \<union> set names
      = dom (name_to_id m) \<union> set (name # names)"
    by (auto simp: dom_NameToId)
  ultimately show ?case using Cons.IH Cons.prems(2) by simp
qed

text \<open>
  Claim C5. Over the mapper state produced by any sequence of \<^verbatim>\<open>NameToId\<close> calls, of any
  length, for every string \<open>s\<close>: \<^verbatim>\<open>IdToName\<close> of the id \<^verbatim>\<open>NameToId(s)\<close> returns is \<open>s\<close>;
  the next call \<^verbatim>\<open>NameToId(s)\<close> returns the same id and leaves the mapper as it is; and
  after any further calls \<^verbatim>\<open>NameToId(s)\<close> still returns that id and \<^verbatim>\<open>IdToName\<close> of it still
  returns \<open>s\<close>. The state is one a process can be in: the names it holds, all of them
  resident in \<^verbatim>\<open>name_to_id_\<close>, are fewer than the \<open>2^64\<close> addresses of the process.
  Idempotence alone holds in every mapper state whatever.
\<close>

theorem NameToId_round_trip_and_idempotent:
  assumes "m = map_names new_NameIdMapper names" and "card (dom (name_to_id m)) < 2 ^ 64"
  shows "IdToName (snd (NameToId m s)) (fst (NameToId m s)) = Returns s
       \<and> NameToId (snd (NameToId m s)) s = (fst (NameToId m s), snd (NameToId m s))
       \<and> (\<forall>later. fst (NameToId (map_names (snd (NameToId m s)) later) s) = fst (NameToId m s)
                  \<and> IdToName (map_names (snd (NameToId m s)) later) (fst (NameToId m s)) = Returns s)
       \<and> (\<forall>m' later. fst (NameToId (map_names (snd (NameToId m' s)) later) s) = fst (NameToId m' s))"
proof -
  have "dom (name_to_id new_NameIdMapper) \<union> set names = dom (name_to_id m)"
    unfolding assms(1) dom_map_names by simp
  then have "counts_names m"
    unfolding assms(1) using assms(2) counts_names_map_names [OF counts_names_new, of names]
    by (simp add: assms(1))
  then have inv: "mapper_inv m" by (simp add: counts_names_def)
  note rt = round_trip_NameToId [OF inv, of s]
  have roundtrip: "IdToName (snd (NameToId m s)) (fst (NameToId m s)) = Returns s"
    using rt(2) by (simp add: IdToName_def)
  have again: "NameToId (snd (NameToId m s)) s = (fst (NameToId m s), snd (NameToId m s))"
    by (rule NameToId_known [OF NameToId_registers rt(1)])
  have later: "IdToName (map_names (snd (NameToId m s)) later) (fst (NameToId m s)) = Returns s" for later
    using map_names_keeps_ids [OF rt(2)] by (simp add: IdToName_def)
  show ?thesis
    using roundtrip again later NameToId_again by simp
qed

text \<open>
  Four calls: the new name gets the id 2, which leads back to it.
\<close>

theorem NameToId_round_trip_and_idempotent_witness:
  "NameToId (map_names new_NameIdMapper [''Person'', ''age'', ''Person'']) ''KNOWS''
     = (2, \<lparr>mapper_counter = 3,
            name_to_id = [''Person'' \<mapsto> 0, ''age'' \<mapsto> 1, ''KNOWS'' \<mapsto> 2],
            id_to_name = [0 \<mapsto> ''Person'', 1 \<mapsto> ''age'', 2 \<mapsto> ''KNOWS'']\<rparr>)
   \<and> IdToName (snd (NameToId (map_names new_NameIdMapper [''Person'', ''age'', ''Person'']) ''KNOWS'')) 2
       = Returns ''KNOWS''
   \<and> fst (NameToId (snd (NameToId (map_names new_NameIdMapper [''Person'', ''age'', ''Person'']) ''KNOWS''))
        ''KNOWS'') = 2"
proof -
  let ?m = "map_names new_NameIdMapper [''Person'', ''age'', ''Person'']"
  have e: "NameToId ?m ''KNOWS''
     = (2, \<lparr>mapper_counter = 3,
            name_to_id = [''Person'' \<mapsto> 0, ''age'' \<mapsto> 1, ''KNOWS'' \<mapsto> 2],
            id_to_name = [0 \<mapsto> ''Person'', 1 \<mapsto> ''age'', 2 \<mapsto> ''KNOWS'']\<rparr>)"
    by (simp add: NameToId_def skiplist_insert_def new_NameIdMapper_def Let_def)
  have "card (dom (name_to_id ?m)) \<le> card (set [''Person'', ''age'', ''Person''])"
    unfolding dom_map_names by (simp add: new_NameIdMapper_def)
  also have "\<dots> \<le> length [''Person'', ''age'', ''Person'']" by (rule card_length)
  finally have l: "card (dom (name_to_id ?m)) < 2 ^ 64" by simp
  show ?thesis
    using NameToId_round_trip_and_idempotent [OF refl l, of "''KNOWS''"] e
    by simp
qed

end
